theory Spec2Isabelle
  imports Main "HOL-Library.Sublist" "HOL-Library.AList" "HOL-Library.Code_Target_Nat"
begin

section \<open>The site extractor: an embedding of the extraction server\<close>

text \<open>
  The repository holds two revisions of one Express server. The later one (the file with
  \<^verbatim>\<open>MAX_SIZE_MB\<close>) adds the size accounting to the earlier \<^verbatim>\<open>server.js\<close>; apart from
  that accounting and the response texts, the functions \<^verbatim>\<open>downloadPage\<close>,
  \<^verbatim>\<open>downloadAsset\<close>, \<^verbatim>\<open>getLocalFilePath\<close> and \<^verbatim>\<open>isValidWebflowUrl\<close> are the same in
  both. The embedding follows the later revision.

  The code runs on Node's event loop: the text between two \<^verbatim>\<open>await\<close>s runs without
  interruption, and a task resumes when the promise it awaits settles. The model is a
  transition function over the job's state; an event is the arrival of what one suspended
  task waits for (the response of an \<^verbatim>\<open>axios.get\<close>, the firing of a back-off timer), and
  one transition runs that task up to its next suspension. All interleavings of the
  concurrently dispatched pages and assets are the event lists.
\<close>

subsection \<open>JavaScript strings\<close>

definition startsWith :: "string \<Rightarrow> string \<Rightarrow> bool" where
  "startsWith s p = prefix p s"

definition endsWith :: "string \<Rightarrow> string \<Rightarrow> bool" where
  "endsWith s p = suffix p s"

text \<open>\<^verbatim>\<open>s.includes(p)\<close>: \<open>p\<close> occurs in \<open>s\<close> as a contiguous run.\<close>

definition str_includes :: "string \<Rightarrow> string \<Rightarrow> bool" where
  "str_includes s p = sublist p s"

text \<open>\<^verbatim>\<open>s.split(c)[0]\<close>: the part of \<open>s\<close> before the first \<open>c\<close> (all of \<open>s\<close> without one).\<close>

definition split0 :: "char \<Rightarrow> string \<Rightarrow> string" where
  "split0 c s = takeWhile (\<lambda>x. x \<noteq> c) s"

text \<open>\<^verbatim>\<open>s.replace(/\\/g, '/')\<close>: every backslash becomes a slash.\<close>

definition replace_backslashes :: "string \<Rightarrow> string" where
  "replace_backslashes s = map (\<lambda>x. if x = CHR 0x5C then CHR ''/'' else x) s"

subsection \<open>The platform: URL objects, \<^verbatim>\<open>path\<close> and the URI coders\<close>

text \<open>The properties of a WHATWG \<^verbatim>\<open>URL\<close> object that the server reads.\<close>

record URL =
  href :: string
  origin :: string
  host :: string
  hostname :: string
  pathname :: string

text \<open>
  The library functions the server calls are parameters of the model: the theorems hold for
  whatever these functions compute. \<open>newURL s\<close> is \<^verbatim>\<open>new URL(s)\<close> and \<open>newURLbase r b\<close> is
  \<^verbatim>\<open>new URL(r, b)\<close>, \<open>None\<close> when the constructor throws; \<open>decodeURIComponent\<close> is \<open>None\<close>
  when it throws \<^verbatim>\<open>URIError\<close>. \<^verbatim>\<open>encodeURI\<close> throws only on a lone surrogate, which a
  string of bytes does not have.
\<close>

record platform =
  newURL :: "string \<Rightarrow> URL option"
  newURLbase :: "string \<Rightarrow> string \<Rightarrow> URL option"
  path_join :: "string list \<Rightarrow> string"
  path_dirname :: "string \<Rightarrow> string"
  path_relative :: "string \<Rightarrow> string \<Rightarrow> string"
  path_extname :: "string \<Rightarrow> string"
  decodeURIComponent :: "string \<Rightarrow> string option"
  encodeURI :: "string \<Rightarrow> string"
  toLowerCase :: "string \<Rightarrow> string"

subsection \<open>Constants\<close>

definition MAX_CONCURRENT_DOWNLOADS :: nat where
  "MAX_CONCURRENT_DOWNLOADS = 10"

definition CHUNK_SIZE :: nat where
  "CHUNK_SIZE = 15"

definition MAX_SIZE_MB :: nat where
  "MAX_SIZE_MB = 500"

subsection \<open>\<^verbatim>\<open>isValidWebflowUrl\<close> and \<^verbatim>\<open>getLocalFilePath\<close>\<close>

definition isValidWebflowUrl :: "platform \<Rightarrow> string \<Rightarrow> bool" where
  "isValidWebflowUrl P u =
     (case newURL P u of
        None \<Rightarrow> False
      | Some parsedUrl \<Rightarrow>
          endsWith (hostname parsedUrl) ''webflow.io'' \<or>
          endsWith (hostname parsedUrl) ''webflow.com'')"

datatype js_error = InvalidURL | URIError

text \<open>
  The parameter \<open>baseUrl\<close> is the source's: the body never reads it. The decoded path is
  computed before the test for a trailing slash, so a path that does not decode throws in
  both branches.
\<close>

definition getLocalFilePath :: "platform \<Rightarrow> string \<Rightarrow> string \<Rightarrow> string \<Rightarrow> js_error + string" where
  "getLocalFilePath P u baseUrl tempDir =
     (case newURL P u of
        None \<Rightarrow> Inl InvalidURL
      | Some urlObj \<Rightarrow>
          (case decodeURIComponent P (pathname urlObj) of
             None \<Rightarrow> Inl URIError
           | Some decoded \<Rightarrow>
               (let localPath = path_join P [tempDir, decoded] in
                if endsWith (pathname urlObj) ''/''
                then Inr (path_join P [tempDir, pathname urlObj, ''index.html''])
                else
                  (let extname = path_extname P (pathname urlObj) in
                   if extname = [] \<or> toLowerCase P extname \<notin> set [''.html'', ''.htm'']
                   then Inr (localPath @ ''.html'')
                   else Inr localPath))))"

text \<open>The local path of an asset, computed inside \<^verbatim>\<open>downloadPage\<close> from the parsed asset URL.\<close>

definition assetPathOf :: "platform \<Rightarrow> string \<Rightarrow> string \<Rightarrow> URL \<Rightarrow> string" where
  "assetPathOf P tempDir baseHost assetUrlObj =
     (if host assetUrlObj = baseHost
      then path_join P [tempDir, pathname assetUrlObj]
      else path_join P [tempDir, ''assets'', host assetUrlObj, pathname assetUrlObj])"

subsection \<open>\<^verbatim>\<open>downloadAsset\<close>: the retry loop\<close>

text \<open>
  One pass through the body of the loop at index \<open>i\<close>. The argument is what the
  \<^verbatim>\<open>try\<close> block met: \<open>Some n\<close> when \<^verbatim>\<open>axios.get\<close> delivered \<open>n\<close> bytes and, if the size
  test let them through, the two file-system calls went through; \<open>None\<close> when
  \<^verbatim>\<open>axios.get\<close> rejected (network, timeout, \<^verbatim>\<open>maxContentLength\<close>) or \<^verbatim>\<open>mkdirSync\<close> or
  \<^verbatim>\<open>writeFileSync\<close> threw. The pass returns the size, rethrows, or sleeps
  \<^verbatim>\<open>1000 * Math.pow(2, i)\<close> milliseconds before the next pass.
\<close>

datatype pass = Return nat | Throw | Sleep nat

definition downloadAsset_pass :: "nat \<Rightarrow> nat \<Rightarrow> nat option \<Rightarrow> pass" where
  "downloadAsset_pass retries i r =
     (let caught = (if Suc i = retries then Throw else Sleep (1000 * 2 ^ i)) in
      case r of
        None \<Rightarrow> caught
      | Some assetSize \<Rightarrow>
          if assetSize > MAX_SIZE_MB * 1024 * 1024 then caught else Return assetSize)"

text \<open>
  The whole loop against a given sequence of outcomes, \<open>rs k\<close> being what the \<open>k\<close>-th
  \<^verbatim>\<open>axios.get\<close> of this call meets. The result lists the requests made (by index), the
  delays slept, and what the call returns: \<open>Some n\<close> for a returned size, \<open>None\<close> for the
  rethrown error.
\<close>

record download =
  requests :: "nat list"
  delays :: "nat list"
  outcome :: "nat option"

function downloadAsset_from :: "nat \<Rightarrow> nat \<Rightarrow> (nat \<Rightarrow> nat option) \<Rightarrow> download \<Rightarrow> download" where
  "downloadAsset_from retries i rs d =
     (if i < retries
      then (case downloadAsset_pass retries i (rs i) of
              Return n \<Rightarrow> d\<lparr>requests := requests d @ [i], outcome := Some n\<rparr>
            | Throw \<Rightarrow> d\<lparr>requests := requests d @ [i], outcome := None\<rparr>
            | Sleep ms \<Rightarrow>
                downloadAsset_from retries (Suc i) rs
                  (d\<lparr>requests := requests d @ [i], delays := delays d @ [ms]\<rparr>))
      else d\<lparr>outcome := Some 0\<rparr>)"
  by pat_completeness auto
termination
  by (relation "measure (\<lambda>(retries, i, rs, d). retries - i)") auto

definition downloadAsset :: "(nat \<Rightarrow> nat option) \<Rightarrow> download" where
  "downloadAsset rs = downloadAsset_from 3 0 rs \<lparr>requests = [], delays = [], outcome = Some 0\<rparr>"

subsection \<open>Documents\<close>

text \<open>
  A parsed document is the list of its elements in document order, which is the order in
  which \<^verbatim>\<open>$(selector).each\<close> visits the elements it selects; an element is addressed by its
  position. \<open>attribs\<close> is the element's attribute object, with its keys in order.
\<close>

record node =
  tagName :: string
  attribs :: "(string \<times> string) list"

type_synonym document = "node list"

definition attrib :: "node \<Rightarrow> string \<Rightarrow> string option" where
  "attrib el k = map_of (attribs el) k"

text \<open>A missing attribute and the empty string are falsy.\<close>

definition truthy :: "string option \<Rightarrow> bool" where
  "truthy v = (case v of None \<Rightarrow> False | Some x \<Rightarrow> x \<noteq> [])"

definition set_attrib :: "node \<Rightarrow> string \<Rightarrow> string \<Rightarrow> node" where
  "set_attrib el k v = el\<lparr>attribs := AList.update k v (attribs el)\<rparr>"

text \<open>The selectors \<^verbatim>\<open>link[href], script[src], img[src], source[src]\<close> and \<^verbatim>\<open>a[href]\<close>.\<close>

definition isAssetElement :: "node \<Rightarrow> bool" where
  "isAssetElement el =
     ((tagName el = ''link'' \<and> attrib el ''href'' \<noteq> None) \<or>
      (tagName el = ''script'' \<and> attrib el ''src'' \<noteq> None) \<or>
      (tagName el = ''img'' \<and> attrib el ''src'' \<noteq> None) \<or>
      (tagName el = ''source'' \<and> attrib el ''src'' \<noteq> None))"

definition isAnchor :: "node \<Rightarrow> bool" where
  "isAnchor el = (tagName el = ''a'' \<and> attrib el ''href'' \<noteq> None)"

text \<open>An entry of the array \<^verbatim>\<open>assets\<close>; \<open>element\<close> is the position of the element.\<close>

record asset =
  url :: string
  element :: nat
  attr :: string

text \<open>
  Lines 153 to 161: a reference that starts with \<^verbatim>\<open>http\<close> or \<^verbatim>\<open>//\<close> is taken as it is, the
  latter with \<^verbatim>\<open>https:\<close> in front; any other is resolved against the URL of the page, and
  \<open>None\<close> is the \<^verbatim>\<open>catch\<close> that returns.
\<close>

definition resolveAssetUrl :: "platform \<Rightarrow> string \<Rightarrow> string \<Rightarrow> string option" where
  "resolveAssetUrl P pageUrl assetUrl =
     (if startsWith assetUrl ''http'' \<or> startsWith assetUrl ''//''
      then Some (if startsWith assetUrl ''//'' then ''https:'' @ assetUrl else assetUrl)
      else map_option href (newURLbase P assetUrl pageUrl))"

text \<open>
  The callback of the first \<^verbatim>\<open>each\<close> on one selected element: the entry it pushes, or
  \<open>None\<close> where it returns early.
\<close>

definition assetReference :: "platform \<Rightarrow> string \<Rightarrow> nat \<Rightarrow> node \<Rightarrow> asset option" where
  "assetReference P pageUrl k el =
     (let at = (if truthy (attrib el ''href'') then ''href'' else ''src'') in
      case attrib el at of
        None \<Rightarrow> None
      | Some assetUrl \<Rightarrow>
          if assetUrl = [] then None
          else
            (case resolveAssetUrl P pageUrl assetUrl of
               None \<Rightarrow> None
             | Some resolved \<Rightarrow>
                 if str_includes resolved ''data:'' then None
                 else Some \<lparr>url = resolved, element = k, attr = at\<rparr>))"

definition collectAssets :: "platform \<Rightarrow> string \<Rightarrow> document \<Rightarrow> asset list" where
  "collectAssets P pageUrl doc =
     List.map_filter
       (\<lambda>(k, el). if isAssetElement el then assetReference P pageUrl k el else None)
       (enumerate 0 doc)"

text \<open>\<^verbatim>\<open>xs.slice(a, b)\<close> for \<open>0 \<le> a\<close>, \<open>0 \<le> b\<close>.\<close>

definition slice :: "'a list \<Rightarrow> nat \<Rightarrow> nat \<Rightarrow> 'a list" where
  "slice xs a b = drop a (take b xs)"

subsection \<open>The state of a job\<close>

text \<open>
  What one callback of the inner \<^verbatim>\<open>chunk.map\<close> of \<^verbatim>\<open>downloadPage\<close> is doing: it has
  returned a size, or it is inside \<^verbatim>\<open>downloadAsset\<close> at loop index \<open>i\<close>, waiting for
  \<^verbatim>\<open>axios.get\<close> or for the back-off timer. The string is \<^verbatim>\<open>assetPath\<close>.
\<close>

datatype fetch = Settled nat | Getting asset string nat | Sleeping asset string nat

definition isSettled :: "fetch \<Rightarrow> bool" where
  "isSettled f = (case f of Settled n \<Rightarrow> True | Getting a p i \<Rightarrow> False | Sleeping a p i \<Rightarrow> False)"

definition settledSize :: "fetch \<Rightarrow> nat" where
  "settledSize f = (case f of Settled n \<Rightarrow> n | Getting a p i \<Rightarrow> 0 | Sleeping a p i \<Rightarrow> 0)"

text \<open>The body of a page as \<^verbatim>\<open>axios.get\<close> delivers it: its byte length and its parse.\<close>

record html =
  byteLength :: nat
  dom :: document

text \<open>
  The locals of a call of \<^verbatim>\<open>downloadPage\<close> that is inside its loop over the assets:
  \<open>html\<close> is the body as it arrived, \<open>dollar\<close> the document \<^verbatim>\<open>$\<close> that the callbacks
  rewrite, \<open>index\<close> the loop variable \<^verbatim>\<open>i\<close>, \<open>chunk\<close> the callbacks of the current
  \<^verbatim>\<open>Promise.all\<close>.
\<close>

record page =
  pageUrl :: string
  html :: html
  dollar :: document
  pageSize :: nat
  localFilePath :: string
  pageDir :: string
  assets :: "asset list"
  index :: nat
  chunk :: "fetch list"

text \<open>
  A callback of the outer \<^verbatim>\<open>chunk.map\<close> of the handler: waiting for the page, inside the
  asset loop, or returned (also when the URL was visited already, or when it threw).
\<close>

datatype task = AwaitPage string | AwaitAssets page | Finished

definition isFinished :: "task \<Rightarrow> bool" where
  "isFinished t = (case t of Finished \<Rightarrow> True | AwaitPage u \<Rightarrow> False | AwaitAssets c \<Rightarrow> False)"

datatype reason = SiteTooLarge | SetupFailed

text \<open>
  \<open>Rejected\<close> is the 400 response; \<open>Failed\<close> is the \<^verbatim>\<open>catch\<close> block of the handler;
  \<open>Completed\<close> is the handler past its \<^verbatim>\<open>while\<close> loop, where the archive is built.
\<close>

datatype status = Rejected | Running | Failed reason | Completed

datatype content = PageFile document | AssetFile nat

text \<open>
  The handler's variables, the tasks of the current wave, and a record of what the job did:
  \<open>created\<close> says that \<^verbatim>\<open>mkdirSync(tempDir)\<close> has run, \<open>files\<close> lists the files written,
  \<open>pageGets\<close> the URLs passed to the \<^verbatim>\<open>axios.get\<close> of \<^verbatim>\<open>downloadPage\<close>, \<open>assetCalls\<close> the URLs
  passed to \<^verbatim>\<open>downloadAsset\<close>, \<open>assetGets\<close> each \<^verbatim>\<open>axios.get\<close> of \<^verbatim>\<open>downloadAsset\<close> with its loop
  index, \<open>sleeps\<close> the delays given to \<^verbatim>\<open>setTimeout\<close>.
\<close>

record job =
  status :: status
  tempDir :: "string option"
  created :: bool
  baseUrl :: string
  baseHost :: string
  visitedUrls :: "string list"
  visitedAssets :: "string list"
  urlQueue :: "string list"
  totalSize :: nat
  wave :: "task list"
  files :: "(string \<times> content) list"
  pageGets :: "string list"
  assetCalls :: "string list"
  assetGets :: "(string \<times> nat) list"
  sleeps :: "nat list"

text \<open>
  An event resumes one suspended callback. \<open>PageResponse k r w\<close>: the page request of task
  \<open>k\<close> of the wave settles, \<open>r = None\<close> when \<^verbatim>\<open>axios.get\<close> rejects or the body is not text.
  \<open>AssetResponse k j r w\<close>: the current request of callback \<open>j\<close> in the chunk of task \<open>k\<close>
  settles, with \<open>r\<close> as in \<open>downloadAsset_pass\<close>. \<open>TimerFired k j w\<close>: its back-off timer
  fires. In every event \<open>w\<close> says whether \<^verbatim>\<open>mkdirSync(pageDir)\<close> and
  \<^verbatim>\<open>writeFileSync(localFilePath, ...)\<close> go through, should the transition reach them.
\<close>

datatype event =
    PageResponse nat "html option" bool
  | AssetResponse nat nat "nat option" bool
  | TimerFired nat nat bool

subsection \<open>The handler's loop: claiming a wave of pages\<close>

text \<open>
  A callback of the outer \<^verbatim>\<open>chunk.map\<close> up to its first suspension: the test against
  \<^verbatim>\<open>visitedUrls\<close>, the insertion, and the call of \<^verbatim>\<open>downloadPage\<close>, which issues its
  \<^verbatim>\<open>axios.get\<close> and waits.
\<close>

definition claimPage :: "string \<Rightarrow> job \<Rightarrow> task \<times> job" where
  "claimPage currentUrl s =
     (if currentUrl \<in> set (visitedUrls s) then (Finished, s)
      else (AwaitPage currentUrl,
            s\<lparr>visitedUrls := visitedUrls s @ [currentUrl],
              pageGets := pageGets s @ [currentUrl]\<rparr>))"

fun claimPages :: "string list \<Rightarrow> job \<Rightarrow> task list \<times> job" where
  "claimPages [] s = ([], s)"
| "claimPages (u # us) s =
     (case claimPage u s of
        (t, s1) \<Rightarrow> (case claimPages us s1 of (ts, s2) \<Rightarrow> (t # ts, s2)))"

text \<open>
  The \<^verbatim>\<open>while\<close> loop from its test to its \<^verbatim>\<open>await\<close>: an empty queue ends the loop;
  otherwise \<^verbatim>\<open>splice(0, CHUNK_SIZE)\<close> takes the wave off the queue and the callbacks start.
  When every callback has returned at once the loop goes round again.
\<close>

function dispatch :: "job \<Rightarrow> job" where
  "dispatch s =
     (if urlQueue s = [] then s\<lparr>status := Completed, wave := []\<rparr>
      else
        (case claimPages (take CHUNK_SIZE (urlQueue s))
                (s\<lparr>urlQueue := drop CHUNK_SIZE (urlQueue s)\<rparr>) of
           (ts, s1) \<Rightarrow>
             if list_all isFinished ts then dispatch (s1\<lparr>wave := ts\<rparr>)
             else s1\<lparr>wave := ts\<rparr>))"
  by pat_completeness auto
termination
proof -
  have frame: "claimPages us s = (ts, s') \<Longrightarrow> urlQueue s' = urlQueue s" for us s ts s'
    by (induction us arbitrary: s ts s') (auto simp: claimPage_def split: prod.splits if_splits)
  show ?thesis
    apply (relation "measure (\<lambda>s. length (urlQueue s))")
     apply simp
    apply (clarsimp simp: CHUNK_SIZE_def)
    apply (drule sym)
    apply (drule frame)
    apply simp
    done
qed

text \<open>
  Lines 38 to 60 of the handler. \<open>dir\<close> is the path that line 51 builds from a fresh UUID,
  \<open>mk\<close> says whether \<^verbatim>\<open>mkdirSync(tempDir)\<close> goes through. \<open>initial\<close> is the state at the
  first test of the \<^verbatim>\<open>while\<close> loop.
\<close>

definition blank :: job where
  "blank =
     \<lparr>status = Rejected, tempDir = None, created = False, baseUrl = [], baseHost = [],
      visitedUrls = [], visitedAssets = [], urlQueue = [], totalSize = 0, wave = [],
      files = [], pageGets = [], assetCalls = [], assetGets = [], sleeps = []\<rparr>"

definition initial :: "string \<Rightarrow> URL \<Rightarrow> string \<Rightarrow> job" where
  "initial dir target targetUrl =
     blank\<lparr>status := Running, tempDir := Some dir, created := True,
           baseUrl := origin target, baseHost := host target, urlQueue := [targetUrl]\<rparr>"

definition start :: "platform \<Rightarrow> string \<Rightarrow> bool \<Rightarrow> string \<Rightarrow> job" where
  "start P dir mk targetUrl =
     (if \<not> isValidWebflowUrl P targetUrl then blank
      else if \<not> mk then blank\<lparr>status := Failed SetupFailed, tempDir := Some dir\<rparr>
      else
        (case newURL P targetUrl of
           None \<Rightarrow> blank\<lparr>status := Failed SetupFailed, tempDir := Some dir, created := True\<rparr>
         | Some target \<Rightarrow> dispatch (initial dir target targetUrl)))"

subsection \<open>\<^verbatim>\<open>downloadPage\<close>\<close>

text \<open>
  A callback of the inner \<^verbatim>\<open>chunk.map\<close> up to its first suspension: the test against
  \<^verbatim>\<open>visitedAssets\<close>, the insertion, the asset's path, and the call of \<^verbatim>\<open>downloadAsset\<close>,
  which issues its first \<^verbatim>\<open>axios.get\<close>. A URL that does not parse throws into the
  callback's \<^verbatim>\<open>catch\<close>, which returns 0.
\<close>

definition retries :: nat where
  "retries = 3"

definition claimAsset :: "platform \<Rightarrow> string \<Rightarrow> asset \<Rightarrow> job \<Rightarrow> fetch \<times> job" where
  "claimAsset P dir a s =
     (if url a \<in> set (visitedAssets s) then (Settled 0, s)
      else
        (let s1 = s\<lparr>visitedAssets := visitedAssets s @ [url a]\<rparr> in
         case newURL P (url a) of
           None \<Rightarrow> (Settled 0, s1)
         | Some assetUrlObj \<Rightarrow>
             (Getting a (assetPathOf P dir (baseHost s) assetUrlObj) 0,
              s1\<lparr>assetCalls := assetCalls s1 @ [url a],
                 assetGets := assetGets s1 @ [(url a, 0)]\<rparr>)))"

fun claimAssets :: "platform \<Rightarrow> string \<Rightarrow> asset list \<Rightarrow> job \<Rightarrow> fetch list \<times> job" where
  "claimAssets P dir [] s = ([], s)"
| "claimAssets P dir (a # as) s =
     (case claimAsset P dir a s of
        (f, s1) \<Rightarrow> (case claimAssets P dir as s1 of (fs, s2) \<Rightarrow> (f # fs, s2)))"

text \<open>
  The callback of the second \<^verbatim>\<open>each\<close> on the element at position \<open>k\<close>. The queue is
  extended before \<^verbatim>\<open>getLocalFilePath\<close> can throw.
\<close>

definition rewriteLink :: "platform \<Rightarrow> string \<Rightarrow> page \<Rightarrow> nat \<times> node \<Rightarrow> document \<times> job \<Rightarrow> document \<times> job" where
  "rewriteLink P dir c x ds =
     (case x of (k, el) \<Rightarrow> case ds of (doc, s) \<Rightarrow>
        if \<not> isAnchor el then (doc, s)
        else
          (case attrib el ''href'' of
             None \<Rightarrow> (doc, s)
           | Some h \<Rightarrow>
               if h = [] \<or> startsWith h ''mailto:'' \<or> startsWith h ''tel:'' \<or> startsWith h ''#''
               then (doc, s)
               else
                 (case newURLbase P h (pageUrl c) of
                    None \<Rightarrow> (doc, s)
                  | Some resolved \<Rightarrow>
                      (let absoluteLink = href resolved;
                           normalizedLink = split0 (CHR ''?'') (split0 (CHR ''#'') absoluteLink)
                       in
                         if startsWith normalizedLink (baseUrl s)
                         then
                           (let s1 =
                                  (if normalizedLink \<notin> set (visitedUrls s) \<and>
                                      normalizedLink \<notin> set (urlQueue s)
                                   then s\<lparr>urlQueue := urlQueue s @ [normalizedLink]\<rparr>
                                   else s)
                            in
                              case getLocalFilePath P normalizedLink (baseUrl s) dir of
                                Inl e \<Rightarrow> (doc, s1)
                              | Inr localLinkPath \<Rightarrow>
                                  (let relativeLinkPath =
                                         replace_backslashes
                                           (path_relative P (pageDir c) localLinkPath)
                                   in (doc[k := set_attrib el ''href'' (encodeURI P relativeLinkPath)],
                                       s1)))
                         else (doc, s)))))"

definition rewriteLinks :: "platform \<Rightarrow> string \<Rightarrow> page \<Rightarrow> job \<Rightarrow> document \<times> job" where
  "rewriteLinks P dir c s = fold (rewriteLink P dir c) (enumerate 0 (dollar c)) (dollar c, s)"

text \<open>
  Lines 69 to 73: the callback of the outer \<^verbatim>\<open>chunk.map\<close> after \<^verbatim>\<open>downloadPage\<close> has
  returned \<open>n\<close>. The throw rejects the \<^verbatim>\<open>Promise.all\<close> the handler awaits; a handler that
  has left its loop already is not affected.
\<close>

definition pageReturned :: "nat \<Rightarrow> job \<Rightarrow> job" where
  "pageReturned n s =
     (let s1 = s\<lparr>totalSize := totalSize s + n\<rparr> in
      if totalSize s1 > MAX_SIZE_MB * 1024 * 1024 \<and> status s1 = Running
      then s1\<lparr>status := Failed SiteTooLarge\<rparr>
      else s1)"

text \<open>
  \<^verbatim>\<open>downloadPage\<close> after its asset loop: the links, then the page file. A failing write
  throws into the \<^verbatim>\<open>catch\<close> of \<^verbatim>\<open>downloadPage\<close>, which returns 0.
\<close>

definition finishPage :: "platform \<Rightarrow> string \<Rightarrow> bool \<Rightarrow> page \<Rightarrow> job \<Rightarrow> job" where
  "finishPage P dir w c s =
     (case rewriteLinks P dir c s of
        (doc, s1) \<Rightarrow>
          if w then pageReturned (pageSize c) (s1\<lparr>files := files s1 @ [(localFilePath c, PageFile doc)]\<rparr>)
          else pageReturned 0 s1)"

text \<open>
  The \<^verbatim>\<open>for\<close> loop over the assets from its test to the \<^verbatim>\<open>await\<close> of \<^verbatim>\<open>Promise.all\<close>. When
  every callback of a chunk has returned at once, the sizes are added and the loop goes on.
\<close>

function assetLoop :: "platform \<Rightarrow> string \<Rightarrow> bool \<Rightarrow> page \<Rightarrow> job \<Rightarrow> task \<times> job" where
  "assetLoop P dir w c s =
     (if index c < length (assets c)
      then
        (case claimAssets P dir
                (slice (assets c) (index c) (index c + MAX_CONCURRENT_DOWNLOADS)) s of
           (fs, s1) \<Rightarrow>
             if list_all isSettled fs
             then assetLoop P dir w
                    (c\<lparr>pageSize := pageSize c + sum_list (map settledSize fs),
                       index := index c + MAX_CONCURRENT_DOWNLOADS,
                       chunk := []\<rparr>) s1
             else (AwaitAssets (c\<lparr>chunk := fs\<rparr>), s1))
      else (Finished, finishPage P dir w c s))"
  by pat_completeness auto
termination
  by (relation "measure (\<lambda>(P, dir, w, c, s). length (assets c) - index c)")
     (auto simp: MAX_CONCURRENT_DOWNLOADS_def)

text \<open>The continuation of \<^verbatim>\<open>await Promise.all(...)\<close> in the asset loop, once a callback has returned.\<close>

definition resume :: "platform \<Rightarrow> string \<Rightarrow> bool \<Rightarrow> page \<Rightarrow> job \<Rightarrow> task \<times> job" where
  "resume P dir w c s =
     (if list_all isSettled (chunk c)
      then assetLoop P dir w
             (c\<lparr>pageSize := pageSize c + sum_list (map settledSize (chunk c)),
                index := index c + MAX_CONCURRENT_DOWNLOADS,
                chunk := []\<rparr>) s
      else (AwaitAssets c, s))"

text \<open>
  \<^verbatim>\<open>downloadPage\<close> from the arrival of the page to the asset loop. A rejected request and a
  throwing \<^verbatim>\<open>getLocalFilePath\<close> both end in the \<^verbatim>\<open>catch\<close> that returns 0.
\<close>

definition pageArrived :: "platform \<Rightarrow> string \<Rightarrow> bool \<Rightarrow> string \<Rightarrow> html option \<Rightarrow> job \<Rightarrow> task \<times> job" where
  "pageArrived P dir w u r s =
     (case r of
        None \<Rightarrow> (Finished, pageReturned 0 s)
      | Some body \<Rightarrow>
          (case getLocalFilePath P u (baseUrl s) dir of
             Inl e \<Rightarrow> (Finished, pageReturned 0 s)
           | Inr path \<Rightarrow>
               assetLoop P dir w
                 \<lparr>pageUrl = u, html = body, dollar = dom body, pageSize = byteLength body,
                  localFilePath = path, pageDir = path_dirname P path,
                  assets = collectAssets P u (dom body), index = 0, chunk = []\<rparr> s))"

text \<open>
  The request of callback \<open>j\<close> settles: one pass of \<^verbatim>\<open>downloadAsset\<close>. On a returned size
  the file is on disk and the callback rewrites the attribute of its element; a rethrown
  error is caught by the callback, which returns 0.
\<close>

definition assetArrived :: "platform \<Rightarrow> string \<Rightarrow> bool \<Rightarrow> page \<Rightarrow> nat \<Rightarrow> nat option \<Rightarrow> job \<Rightarrow> task \<times> job" where
  "assetArrived P dir w c j r s =
     (case chunk c ! j of
        Getting a assetPath i \<Rightarrow>
          (case downloadAsset_pass retries i r of
             Return assetSize \<Rightarrow>
               (let relativeAssetPath = replace_backslashes (path_relative P (pageDir c) assetPath)
                in resume P dir w
                     (c\<lparr>dollar := (dollar c)[element a :=
                                     set_attrib (dollar c ! element a) (attr a)
                                       (encodeURI P relativeAssetPath)],
                        chunk := (chunk c)[j := Settled assetSize]\<rparr>)
                     (s\<lparr>files := files s @ [(assetPath, AssetFile assetSize)]\<rparr>))
           | Throw \<Rightarrow> resume P dir w (c\<lparr>chunk := (chunk c)[j := Settled 0]\<rparr>) s
           | Sleep ms \<Rightarrow>
               (AwaitAssets (c\<lparr>chunk := (chunk c)[j := Sleeping a assetPath i]\<rparr>),
                s\<lparr>sleeps := sleeps s @ [ms]\<rparr>))
      | Sleeping a assetPath i \<Rightarrow> (AwaitAssets c, s)
      | Settled n \<Rightarrow> (AwaitAssets c, s))"

text \<open>
  The timer of callback \<open>j\<close> fires: \<^verbatim>\<open>i++\<close>, the loop test, and the next \<^verbatim>\<open>axios.get\<close>; past
  the loop \<^verbatim>\<open>downloadAsset\<close> returns 0.
\<close>

definition timerFired :: "platform \<Rightarrow> string \<Rightarrow> bool \<Rightarrow> page \<Rightarrow> nat \<Rightarrow> job \<Rightarrow> task \<times> job" where
  "timerFired P dir w c j s =
     (case chunk c ! j of
        Sleeping a assetPath i \<Rightarrow>
          if Suc i < retries
          then (AwaitAssets (c\<lparr>chunk := (chunk c)[j := Getting a assetPath (Suc i)]\<rparr>),
                s\<lparr>assetGets := assetGets s @ [(url a, Suc i)]\<rparr>)
          else resume P dir w (c\<lparr>chunk := (chunk c)[j := Settled 0]\<rparr>) s
      | Getting a assetPath i \<Rightarrow> (AwaitAssets c, s)
      | Settled n \<Rightarrow> (AwaitAssets c, s))"

subsection \<open>Transitions and runs\<close>

text \<open>
  The task that the event addresses runs to its next suspension; if that was the last
  callback of the wave and the handler is still in its loop, the loop goes on.
\<close>

definition react :: "platform \<Rightarrow> string \<Rightarrow> event \<Rightarrow> job \<Rightarrow> (nat \<times> task \<times> job) option" where
  "react P dir e s =
     (case e of
        PageResponse k r w \<Rightarrow>
          (if k < length (wave s)
           then (case wave s ! k of
                   AwaitPage u \<Rightarrow> Some (k, pageArrived P dir w u r s)
                 | AwaitAssets c \<Rightarrow> None
                 | Finished \<Rightarrow> None)
           else None)
      | AssetResponse k j r w \<Rightarrow>
          (if k < length (wave s)
           then (case wave s ! k of
                   AwaitAssets c \<Rightarrow>
                     if j < length (chunk c) then Some (k, assetArrived P dir w c j r s) else None
                 | AwaitPage u \<Rightarrow> None
                 | Finished \<Rightarrow> None)
           else None)
      | TimerFired k j w \<Rightarrow>
          (if k < length (wave s)
           then (case wave s ! k of
                   AwaitAssets c \<Rightarrow>
                     if j < length (chunk c) then Some (k, timerFired P dir w c j s) else None
                 | AwaitPage u \<Rightarrow> None
                 | Finished \<Rightarrow> None)
           else None))"

definition continue :: "job \<Rightarrow> job" where
  "continue s = (if status s = Running \<and> list_all isFinished (wave s) then dispatch s else s)"

definition step :: "platform \<Rightarrow> event \<Rightarrow> job \<Rightarrow> job" where
  "step P e s =
     (case tempDir s of
        None \<Rightarrow> s
      | Some dir \<Rightarrow>
          (case react P dir e s of
             None \<Rightarrow> s
           | Some (k, t, s1) \<Rightarrow> continue (s1\<lparr>wave := (wave s1)[k := t]\<rparr>)))"

definition run :: "platform \<Rightarrow> event list \<Rightarrow> job \<Rightarrow> job" where
  "run P es s = fold (step P) es s"

section \<open>A reference platform for the examples\<close>

text \<open>
  The examples run on an instance of the platform: Node's POSIX \<^verbatim>\<open>path\<close> functions, the two
  URI coders and ASCII lower-casing as functions, and the \<^verbatim>\<open>URL\<close> constructor as the table
  of its results on the strings that the examples use.
\<close>

fun splitOn :: "char \<Rightarrow> string \<Rightarrow> string list" where
  "splitOn c [] = [[]]"
| "splitOn c (x # xs) =
     (if x = c then [] # splitOn c xs
      else (case splitOn c xs of [] \<Rightarrow> [[x]] | y # ys \<Rightarrow> (x # y) # ys))"

fun joinWith :: "char \<Rightarrow> string list \<Rightarrow> string" where
  "joinWith c [] = []"
| "joinWith c [x] = x"
| "joinWith c (x # y # ys) = x @ c # joinWith c (y # ys)"

text \<open>
  \<^verbatim>\<open>normalizeString\<close>: the segments of a path with empty and \<^verbatim>\<open>.\<close> segments dropped and
  \<^verbatim>\<open>..\<close> resolved; \<open>acc\<close> holds the segments kept so far, last first.
\<close>

fun normalizeSegments :: "bool \<Rightarrow> string list \<Rightarrow> string list \<Rightarrow> string list" where
  "normalizeSegments isAbsolute acc [] = rev acc"
| "normalizeSegments isAbsolute acc (x # xs) =
     (if x = [] \<or> x = ''.'' then normalizeSegments isAbsolute acc xs
      else if x = ''..''
      then (case acc of
              [] \<Rightarrow> if isAbsolute then normalizeSegments isAbsolute [] xs
                    else normalizeSegments isAbsolute [''..''] xs
            | y # ys \<Rightarrow> if y = ''..'' then normalizeSegments isAbsolute (''..'' # acc) xs
                        else normalizeSegments isAbsolute ys xs)
      else normalizeSegments isAbsolute (x # acc) xs)"

definition posix_normalize :: "string \<Rightarrow> string" where
  "posix_normalize p =
     (if p = [] then ''.''
      else
        (let isAbsolute = (hd p = CHR ''/'');
             trailingSeparator = (last p = CHR ''/'');
             r = joinWith (CHR ''/'') (normalizeSegments isAbsolute [] (splitOn (CHR ''/'') p));
             r1 = (if r = [] \<and> \<not> isAbsolute then ''.'' else r);
             r2 = (if r1 \<noteq> [] \<and> trailingSeparator then r1 @ ''/'' else r1)
         in if isAbsolute then CHR ''/'' # r2 else r2))"

definition posix_join :: "string list \<Rightarrow> string" where
  "posix_join args =
     (let joined = joinWith (CHR ''/'') (filter (\<lambda>a. a \<noteq> []) args)
      in if joined = [] then ''.'' else posix_normalize joined)"

definition stripTrailingSlashes :: "string \<Rightarrow> string" where
  "stripTrailingSlashes p = rev (dropWhile (\<lambda>x. x = CHR ''/'') (rev p))"

definition posix_dirname :: "string \<Rightarrow> string" where
  "posix_dirname p =
     (if p = [] then ''.''
      else
        (let hasRoot = (hd p = CHR ''/'');
             body = stripTrailingSlashes (tl p);
             kept = rev (dropWhile (\<lambda>x. x \<noteq> CHR ''/'') (rev body))
         in if kept = [] then (if hasRoot then ''/'' else ''.'')
            else if hasRoot \<and> length kept = 1 then ''//''
            else hd p # butlast kept))"

definition posix_extname :: "string \<Rightarrow> string" where
  "posix_extname p =
     (let base = last (splitOn (CHR ''/'') (stripTrailingSlashes p));
          ext = rev (takeWhile (\<lambda>x. x \<noteq> CHR ''.'') (rev base))
      in if CHR ''.'' \<notin> set base \<or> length ext + 1 = length base \<or> base = ''..'' then []
         else CHR ''.'' # ext)"

fun dropCommon :: "string list \<Rightarrow> string list \<Rightarrow> string list \<times> string list" where
  "dropCommon (x # xs) (y # ys) = (if x = y then dropCommon xs ys else (x # xs, y # ys))"
| "dropCommon xs ys = (xs, ys)"

text \<open>\<^verbatim>\<open>path.relative\<close> on two absolute paths.\<close>

definition posix_relative :: "string \<Rightarrow> string \<Rightarrow> string" where
  "posix_relative from to =
     (let segments = (\<lambda>p. filter (\<lambda>a. a \<noteq> []) (splitOn (CHR ''/'') (posix_normalize p)))
      in case dropCommon (segments from) (segments to) of
           (up, down) \<Rightarrow> joinWith (CHR ''/'') (map (\<lambda>a. ''..'') up @ down))"

definition hexDigit :: "nat \<Rightarrow> char" where
  "hexDigit n = ''0123456789ABCDEF'' ! (n mod 16)"

definition uriKeeps :: "char \<Rightarrow> bool" where
  "uriKeeps c =
     (c \<in> set ''abcdefghijklmnopqrstuvwxyzABCDEFGHIJKLMNOPQRSTUVWXYZ0123456789'' \<or>
      c \<in> set '';/?:@&=+$,-_.!~*()#'' \<or> c = CHR 0x27)"

definition node_encodeURI :: "string \<Rightarrow> string" where
  "node_encodeURI s =
     concat (map (\<lambda>c. if uriKeeps c then [c]
                       else [CHR ''%'', hexDigit (of_char c div 16), hexDigit (of_char c)]) s)"

definition unhex :: "char \<Rightarrow> nat option" where
  "unhex c =
     (if c \<in> set ''0123456789'' then Some (of_char c - 48)
      else if c \<in> set ''ABCDEF'' then Some (of_char c - 55)
      else if c \<in> set ''abcdef'' then Some (of_char c - 87)
      else None)"

fun node_decodeURIComponent :: "string \<Rightarrow> string option" where
  "node_decodeURIComponent [] = Some []"
| "node_decodeURIComponent (c # cs) =
     (if c \<noteq> CHR ''%'' then map_option (Cons c) (node_decodeURIComponent cs)
      else (case cs of
              a # b # rest \<Rightarrow>
                (case (unhex a, unhex b) of
                   (Some x, Some y) \<Rightarrow>
                     map_option (Cons (char_of (16 * x + y))) (node_decodeURIComponent rest)
                 | _ \<Rightarrow> None)
            | _ \<Rightarrow> None))"

definition ascii_toLowerCase :: "string \<Rightarrow> string" where
  "ascii_toLowerCase s =
     map (\<lambda>c. if c \<in> set ''ABCDEFGHIJKLMNOPQRSTUVWXYZ'' then char_of (of_char c + (32::nat)) else c) s"

text \<open>
  The \<^verbatim>\<open>URL\<close> object of \<^verbatim>\<open>https://<h><p><q>\<close> for a lower-case host \<open>h\<close> without a port, a
  path \<open>p\<close> and a query or fragment \<open>q\<close>.
\<close>

definition https :: "string \<Rightarrow> string \<Rightarrow> string \<Rightarrow> URL" where
  "https h p q =
     \<lparr>href = ''https://'' @ h @ p @ q, origin = ''https://'' @ h, host = h, hostname = h,
      pathname = p\<rparr>"

definition imageUrl :: "char \<Rightarrow> string" where
  "imageUrl c = ''https://x.webflow.io/img/'' @ [c] @ ''.png''"

definition knownURLs :: "(string \<times> URL) list" where
  "knownURLs =
     [(''https://x.webflow.io/'', https ''x.webflow.io'' ''/'' []),
      (''https://x.webflow.io/b'', https ''x.webflow.io'' ''/b'' []),
      (''https://x.webflow.io/s.css'', https ''x.webflow.io'' ''/s.css'' []),
      (''https://x.webflow.io/?ref=1'', https ''x.webflow.io'' ''/'' ''?ref=1''),
      (''https://x.webflow.io/files/report.pdf'', https ''x.webflow.io'' ''/files/report.pdf'' []),
      (''https://x.webflow.io/docs/'', https ''x.webflow.io'' ''/docs/'' []),
      (''https://x.webflow.io/about'', https ''x.webflow.io'' ''/about'' []),
      (''https://x.webflow.io/team.HTML'', https ''x.webflow.io'' ''/team.HTML'' []),
      (''https://cdn.example.com/lib.js'', https ''cdn.example.com'' ''/lib.js'' []),
      (''https://evil.example.com/'', https ''evil.example.com'' ''/'' [])]
     @ map (\<lambda>c. (imageUrl c, https ''x.webflow.io'' (''/img/'' @ [c] @ ''.png'') []))
         ''abcdefghijklmno''"

definition knownReferences :: "((string \<times> string) \<times> URL) list" where
  "knownReferences =
     [((''/s.css'', ''https://x.webflow.io/''), https ''x.webflow.io'' ''/s.css'' []),
      ((''/b'', ''https://x.webflow.io/''), https ''x.webflow.io'' ''/b'' []),
      ((''/s.css'', ''https://x.webflow.io/b''), https ''x.webflow.io'' ''/s.css'' []),
      ((''/'', ''https://x.webflow.io/b''), https ''x.webflow.io'' ''/'' []),
      ((''/?ref=1'', ''https://x.webflow.io/?ref=1''), https ''x.webflow.io'' ''/'' ''?ref=1''),
      ((''/pixel.gif?payload=data:1'', ''https://x.webflow.io/''),
         https ''x.webflow.io'' ''/pixel.gif'' ''?payload=data:1'')]"

definition node :: platform where
  "node =
     \<lparr>newURL = map_of knownURLs,
      newURLbase = (\<lambda>r b. map_of knownReferences (r, b)),
      path_join = posix_join,
      path_dirname = posix_dirname,
      path_relative = posix_relative,
      path_extname = posix_extname,
      decodeURIComponent = node_decodeURIComponent,
      encodeURI = node_encodeURI,
      toLowerCase = ascii_toLowerCase\<rparr>"

subsection \<open>What holds of the tasks in flight\<close>

text \<open>
  The callbacks of a page's current \<^verbatim>\<open>Promise.all\<close> stand, position by position, for the
  entries of \<^verbatim>\<open>assets.slice(i, i + MAX_CONCURRENT_DOWNLOADS)\<close>; a callback inside
  \<^verbatim>\<open>downloadAsset\<close> is at a loop index below \<open>retries\<close>, and one that sleeps has another pass
  to come. No entry of \<^verbatim>\<open>assets\<close> has a URL that contains \<^verbatim>\<open>data:\<close>.
\<close>

definition fetchFor :: "asset \<Rightarrow> fetch \<Rightarrow> bool" where
  "fetchFor a f =
     (case f of
        Settled n \<Rightarrow> True
      | Getting b p i \<Rightarrow> b = a \<and> i < retries
      | Sleeping b p i \<Rightarrow> b = a \<and> Suc i < retries)"

definition noDataUrl :: "asset \<Rightarrow> bool" where
  "noDataUrl a = (\<not> str_includes (url a) ''data:'')"

text \<open>
  The asset loop has done whole chunks only; \<^verbatim>\<open>assets\<close> is what the first \<^verbatim>\<open>each\<close> collected
  from the body; and the document differs from the body at most where an entry of
  \<^verbatim>\<open>assets\<close> points.
\<close>

definition pageBase :: "platform \<Rightarrow> page \<Rightarrow> bool" where
  "pageBase P c =
     (index c mod MAX_CONCURRENT_DOWNLOADS = 0 \<and>
      collectAssets P (pageUrl c) (dom (html c)) = assets c \<and>
      length (dollar c) = length (dom (html c)) \<and>
      (\<forall>k. k \<notin> element ` set (assets c) \<longrightarrow> dollar c ! k = dom (html c) ! k))"

definition pageInv :: "platform \<Rightarrow> page \<Rightarrow> bool" where
  "pageInv P c =
     (list_all2 fetchFor
        (slice (assets c) (index c) (index c + MAX_CONCURRENT_DOWNLOADS)) (chunk c) \<and>
      pageBase P c)"

definition taskInv :: "platform \<Rightarrow> task \<Rightarrow> bool" where
  "taskInv P t = (case t of AwaitAssets c \<Rightarrow> pageInv P c | AwaitPage u \<Rightarrow> True | Finished \<Rightarrow> True)"

definition waveInv :: "platform \<Rightarrow> job \<Rightarrow> bool" where
  "waveInv P s = (list_all (taskInv P) (wave s) \<and> length (wave s) \<le> CHUNK_SIZE)"


subsection \<open>Example pages\<close>

text \<open>
  A site of two pages that link to each other and share one stylesheet: the home page at
  \<^verbatim>\<open>https://x.webflow.io/\<close> and the page \<^verbatim>\<open>/b\<close>.
\<close>

definition stylesheetLink :: node where
  "stylesheetLink = \<lparr>tagName = ''link'', attribs = [(''rel'', ''stylesheet''), (''href'', ''/s.css'')]\<rparr>"

definition homePage :: html where
  "homePage =
     \<lparr>byteLength = 200,
      dom = [stylesheetLink, \<lparr>tagName = ''a'', attribs = [(''href'', ''/b'')]\<rparr>]\<rparr>"

definition pageB :: html where
  "pageB =
     \<lparr>byteLength = 150,
      dom = [stylesheetLink, \<lparr>tagName = ''a'', attribs = [(''href'', ''/'')]\<rparr>]\<rparr>"

text \<open>
  The crawl of that site in which every request succeeds at once: the home page arrives,
  then the stylesheet (120 bytes), then page \<^verbatim>\<open>/b\<close> in the second wave.
\<close>

definition twoPageCrawl :: "event list" where
  "twoPageCrawl =
     [PageResponse 0 (Some homePage) True,
      AssetResponse 0 0 (Some 120) True,
      PageResponse 0 (Some pageB) True]"

text \<open>A page whose only link points back to the page itself, query string included.\<close>

definition selfLinkPage :: html where
  "selfLinkPage =
     \<lparr>byteLength = 80, dom = [\<lparr>tagName = ''a'', attribs = [(''href'', ''/?ref=1'')]\<rparr>]\<rparr>"

text \<open>A page with fifteen images, each at an absolute URL of its own.\<close>

definition galleryPage :: html where
  "galleryPage =
     \<lparr>byteLength = 900,
      dom = map (\<lambda>c. \<lparr>tagName = ''img'', attribs = [(''src'', imageUrl c)]\<rparr>) ''abcdefghijklmno''\<rparr>"

text \<open>
  A page with a tracking pixel whose query string carries the characters \<^verbatim>\<open>data:\<close>, next to
  the shared stylesheet.
\<close>

definition pixel :: node where
  "pixel = \<lparr>tagName = ''img'', attribs = [(''src'', ''/pixel.gif?payload=data:1'')]\<rparr>"

definition pixelPage :: html where
  "pixelPage = \<lparr>byteLength = 60, dom = [pixel, stylesheetLink]\<rparr>"



text \<open>The crawl of a site whose home page is that page: it arrives, then the stylesheet.\<close>

definition pixelCrawl :: "event list" where
  "pixelCrawl = [PageResponse 0 (Some pixelPage) True, AssetResponse 0 0 (Some 120) True]"

section \<open>What the transitions preserve\<close>

declare assetLoop.simps [simp del] dispatch.simps [simp del]

text \<open>
  Each lemma of this section lifts a property \<open>I\<close> of job states from the places where
  the state is written (\<open>claimAsset\<close>, \<open>claimPage\<close>, \<open>pageReturned\<close> and the plain field
  updates) to a function built from them. \<open>Q\<close> is a property of the assets that reach
  \<open>claimAsset\<close>.
\<close>

lemma claimAssets_preserves:
  assumes "list_all Q as" and "I s" and "claimAssets P dir as s = (fs, s')"
    and ca: "\<And>a s f s1. Q a \<Longrightarrow> I s \<Longrightarrow> claimAsset P dir a s = (f, s1) \<Longrightarrow> I s1"
  shows "I s'"
  using assms(1-3)
proof (induction as arbitrary: s fs s')
  case Nil
  then show ?case by simp
next
  case (Cons a as)
  obtain f s1 where a: "claimAsset P dir a s = (f, s1)"
    by (cases "claimAsset P dir a s")
  obtain gs s2 where b: "claimAssets P dir as s1 = (gs, s2)"
    by (cases "claimAssets P dir as s1")
  from Cons.prems a b have "s' = s2"
    by simp
  moreover from Cons.prems a have "I s1"
    using ca [of a s f s1] by simp
  ultimately show ?case
    using Cons.IH [of s1 gs s2] Cons.prems(1) b by simp
qed

lemma rewriteLink_state:
  assumes "rewriteLink P dir c x (doc, s) = (doc', s')"
  shows "s' = s \<or> (\<exists>q. s' = s\<lparr>urlQueue := q\<rparr>)"
  using assms
  by (auto simp: rewriteLink_def Let_def split: prod.splits option.splits if_splits sum.splits)

lemma fold_rewriteLink_preserves:
  assumes "I s" and "fold (rewriteLink P dir c) xs (doc, s) = (doc', s')"
    and uq: "\<And>s q. I s \<Longrightarrow> I (s\<lparr>urlQueue := q\<rparr>)"
  shows "I s'"
  using assms(1,2)
proof (induction xs arbitrary: doc s)
  case Nil
  then show ?case by simp
next
  case (Cons x xs)
  obtain d1 s1 where a: "rewriteLink P dir c x (doc, s) = (d1, s1)"
    by (cases "rewriteLink P dir c x (doc, s)")
  from rewriteLink_state [OF a] Cons.prems(1) have "I s1"
    using uq by auto
  with Cons.IH [of s1 d1] Cons.prems(2) a show ?case
    by simp
qed

lemma finishPage_preserves:
  assumes i: "I s"
    and uq: "\<And>s q. I s \<Longrightarrow> I (s\<lparr>urlQueue := q\<rparr>)"
    and fl: "\<And>s f. I s \<Longrightarrow> I (s\<lparr>files := f\<rparr>)"
    and pr: "\<And>s n. I s \<Longrightarrow> I (pageReturned n s)"
  shows "I (finishPage P dir w c s)"
proof -
  obtain doc s1 where a: "rewriteLinks P dir c s = (doc, s1)"
    by (cases "rewriteLinks P dir c s")
  then have "fold (rewriteLink P dir c) (enumerate 0 (dollar c)) (dollar c, s) = (doc, s1)"
    by (simp add: rewriteLinks_def)
  then have "I s1"
    by (rule fold_rewriteLink_preserves [where I = I, OF i]) (rule uq)
  then show ?thesis
    using a fl pr by (simp add: finishPage_def)
qed

lemma list_all_slice: "list_all Q xs \<Longrightarrow> list_all Q (slice xs a b)"
  by (auto simp: slice_def list_all_iff dest: in_set_dropD in_set_takeD)

lemma assetLoop_preserves:
  assumes "list_all Q (assets c)" and "I s" and "assetLoop P dir w c s = (t, s')"
    and "\<And>a s f s1. Q a \<Longrightarrow> I s \<Longrightarrow> claimAsset P dir a s = (f, s1) \<Longrightarrow> I s1"
    and "\<And>c s. I s \<Longrightarrow> I (finishPage P dir w c s)"
  shows "I s'"
  using assms
proof (induction P dir w c s rule: assetLoop.induct)
  case (1 P dir w c s)
  note q = "1.prems"(1) and i = "1.prems"(2) and run = "1.prems"(3) and ca = "1.prems"(4)
    and fin = "1.prems"(5)
  let ?sl = "slice (assets c) (index c) (index c + MAX_CONCURRENT_DOWNLOADS)"
  show ?case
  proof (cases "index c < length (assets c)")
    case False
    with run have "s' = finishPage P dir w c s"
      by (simp add: assetLoop.simps [of P dir w c s])
    with fin [OF i] show ?thesis
      by simp
  next
    case True
    obtain fs s1 where a: "claimAssets P dir ?sl s = (fs, s1)"
      by (cases "claimAssets P dir ?sl s")
    have s1: "I s1"
      by (rule claimAssets_preserves [where I = I and Q = Q, OF list_all_slice [OF q] i a])
         (rule ca)
    show ?thesis
    proof (cases "list_all isSettled fs")
      case False
      with True a run s1 show ?thesis
        by (simp add: assetLoop.simps [of P dir w c s])
    next
      case settled: True
      let ?c = "c\<lparr>pageSize := pageSize c + sum_list (map settledSize fs),
                 index := index c + MAX_CONCURRENT_DOWNLOADS, chunk := []\<rparr>"
      from True a settled run have nxt: "assetLoop P dir w ?c s1 = (t, s')"
        by (simp add: assetLoop.simps [of P dir w c s])
      from q have q': "list_all Q (assets ?c)"
        by simp
      show ?thesis
        by (rule "1.IH" [OF True a [symmetric] settled q' s1 nxt]) (rule ca, assumption+, rule fin)
    qed
  qed
qed

lemma resume_preserves:
  assumes q: "list_all Q (assets c)" and i: "I s" and r: "resume P dir w c s = (t, s')"
    and ca: "\<And>a s f s1. Q a \<Longrightarrow> I s \<Longrightarrow> claimAsset P dir a s = (f, s1) \<Longrightarrow> I s1"
    and fin: "\<And>c s. I s \<Longrightarrow> I (finishPage P dir w c s)"
  shows "I s'"
proof (cases "list_all isSettled (chunk c)")
  case False
  with r i show ?thesis
    by (simp add: resume_def)
next
  case True
  let ?c = "c\<lparr>pageSize := pageSize c + sum_list (map settledSize (chunk c)),
              index := index c + MAX_CONCURRENT_DOWNLOADS, chunk := []\<rparr>"
  from True r have nxt: "assetLoop P dir w ?c s = (t, s')"
    by (simp add: resume_def)
  from q have q': "list_all Q (assets ?c)"
    by simp
  show ?thesis
    by (rule assetLoop_preserves [where Q = Q and I = I, OF q' i nxt])
       (rule ca, assumption+, rule fin)
qed

lemma pageArrived_preserves:
  assumes i: "I s" and r: "pageArrived P dir w u b s = (t, s')"
    and ca: "\<And>a s f s1. Q a \<Longrightarrow> I s \<Longrightarrow> claimAsset P dir a s = (f, s1) \<Longrightarrow> I s1"
    and fin: "\<And>c s. I s \<Longrightarrow> I (finishPage P dir w c s)"
    and pr: "\<And>s n. I s \<Longrightarrow> I (pageReturned n s)"
    and qa: "\<And>u doc. list_all Q (collectAssets P u doc)"
  shows "I s'"
proof (cases b)
  case None
  with r have "s' = pageReturned 0 s"
    by (simp add: pageArrived_def)
  with pr [OF i] show ?thesis
    by simp
next
  case (Some body)
  show ?thesis
  proof (cases "getLocalFilePath P u (baseUrl s) dir")
    case (Inl e)
    with Some r have "s' = pageReturned 0 s"
      by (simp add: pageArrived_def)
    with pr [OF i] show ?thesis
      by simp
  next
    case (Inr path)
    let ?c = "\<lparr>pageUrl = u, html = body, dollar = dom body, pageSize = byteLength body,
               localFilePath = path, pageDir = path_dirname P path,
               assets = collectAssets P u (dom body), index = 0, chunk = []\<rparr>"
    from Some Inr r have nxt: "assetLoop P dir w ?c s = (t, s')"
      by (simp add: pageArrived_def)
    have q': "list_all Q (assets ?c)"
      using qa by simp
    show ?thesis
      by (rule assetLoop_preserves [where Q = Q and I = I, OF q' i nxt])
         (rule ca, assumption+, rule fin)
  qed
qed

lemma assetArrived_preserves:
  assumes q: "list_all Q (assets c)" and i: "I s" and r: "assetArrived P dir w c j b s = (t, s')"
    and ca: "\<And>a s f s1. Q a \<Longrightarrow> I s \<Longrightarrow> claimAsset P dir a s = (f, s1) \<Longrightarrow> I s1"
    and fin: "\<And>c s. I s \<Longrightarrow> I (finishPage P dir w c s)"
    and fl: "\<And>s f. I s \<Longrightarrow> I (s\<lparr>files := f\<rparr>)"
    and sl: "\<And>s x. I s \<Longrightarrow> I (s\<lparr>sleeps := x\<rparr>)"
  shows "I s'"
proof (cases "chunk c ! j")
  case (Settled n)
  with r i show ?thesis
    by (simp add: assetArrived_def)
next
  case (Sleeping a p k)
  with r i show ?thesis
    by (simp add: assetArrived_def)
next
  case (Getting a p k)
  show ?thesis
  proof (cases "downloadAsset_pass retries k b")
    case (Return n)
    let ?c = "c\<lparr>dollar := (dollar c)[element a :=
                   set_attrib (dollar c ! element a) (attr a)
                     (encodeURI P (replace_backslashes (path_relative P (pageDir c) p)))],
               chunk := (chunk c)[j := Settled n]\<rparr>"
    let ?s = "s\<lparr>files := files s @ [(p, AssetFile n)]\<rparr>"
    from Getting Return r have nxt: "resume P dir w ?c ?s = (t, s')"
      by (simp add: assetArrived_def Let_def)
    from q have q': "list_all Q (assets ?c)"
      by simp
    show ?thesis
      by (rule resume_preserves [where Q = Q and I = I, OF q' fl [OF i] nxt])
         (rule ca, assumption+, rule fin)
  next
    case Throw
    let ?c = "c\<lparr>chunk := (chunk c)[j := Settled 0]\<rparr>"
    from Getting Throw r have nxt: "resume P dir w ?c s = (t, s')"
      by (simp add: assetArrived_def)
    from q have q': "list_all Q (assets ?c)"
      by simp
    show ?thesis
      by (rule resume_preserves [where Q = Q and I = I, OF q' i nxt])
         (rule ca, assumption+, rule fin)
  next
    case (Sleep ms)
    with Getting r have "s' = s\<lparr>sleeps := sleeps s @ [ms]\<rparr>"
      by (simp add: assetArrived_def)
    with sl [OF i] show ?thesis
      by simp
  qed
qed

lemma timerFired_preserves:
  assumes q: "list_all Q (assets c)" and i: "I s" and r: "timerFired P dir w c j s = (t, s')"
    and ca: "\<And>a s f s1. Q a \<Longrightarrow> I s \<Longrightarrow> claimAsset P dir a s = (f, s1) \<Longrightarrow> I s1"
    and fin: "\<And>c s. I s \<Longrightarrow> I (finishPage P dir w c s)"
    and ag: "\<And>s x. I s \<Longrightarrow> I (s\<lparr>assetGets := x\<rparr>)"
  shows "I s'"
proof (cases "chunk c ! j")
  case (Settled n)
  with r i show ?thesis
    by (simp add: timerFired_def)
next
  case (Getting a p k)
  with r i show ?thesis
    by (simp add: timerFired_def)
next
  case (Sleeping a p k)
  show ?thesis
  proof (cases "Suc k < retries")
    case True
    with Sleeping r have "s' = s\<lparr>assetGets := assetGets s @ [(url a, Suc k)]\<rparr>"
      by (simp add: timerFired_def)
    with ag [OF i] show ?thesis
      by simp
  next
    case False
    let ?c = "c\<lparr>chunk := (chunk c)[j := Settled 0]\<rparr>"
    from Sleeping False r have nxt: "resume P dir w ?c s = (t, s')"
      by (simp add: timerFired_def)
    from q have q': "list_all Q (assets ?c)"
      by simp
    show ?thesis
      by (rule resume_preserves [where Q = Q and I = I, OF q' i nxt])
         (rule ca, assumption+, rule fin)
  qed
qed

lemma react_cases:
  assumes "react P dir e s = Some (k, t, s')"
  obtains (page) w u b where "e = PageResponse k b w" and "k < length (wave s)"
      and "wave s ! k = AwaitPage u" and "pageArrived P dir w u b s = (t, s')"
    | (asset) w c j b where "e = AssetResponse k j b w" and "k < length (wave s)"
      and "wave s ! k = AwaitAssets c" and "j < length (chunk c)"
      and "assetArrived P dir w c j b s = (t, s')"
    | (timer) w c j where "e = TimerFired k j w" and "k < length (wave s)"
      and "wave s ! k = AwaitAssets c" and "j < length (chunk c)"
      and "timerFired P dir w c j s = (t, s')"
  using assms by (cases e) (auto simp: react_def split: if_splits task.splits)

lemma react_preserves:
  assumes i: "I s" and r: "react P dir e s = Some (k, t, s')"
    and wq: "\<And>c. AwaitAssets c \<in> set (wave s) \<Longrightarrow> list_all Q (assets c)"
    and ca: "\<And>a s f s1. Q a \<Longrightarrow> I s \<Longrightarrow> claimAsset P dir a s = (f, s1) \<Longrightarrow> I s1"
    and qa: "\<And>u doc. list_all Q (collectAssets P u doc)"
    and uq: "\<And>s q. I s \<Longrightarrow> I (s\<lparr>urlQueue := q\<rparr>)"
    and fl: "\<And>s f. I s \<Longrightarrow> I (s\<lparr>files := f\<rparr>)"
    and pr: "\<And>s n. I s \<Longrightarrow> I (pageReturned n s)"
    and sl: "\<And>s x. I s \<Longrightarrow> I (s\<lparr>sleeps := x\<rparr>)"
    and ag: "\<And>s x. I s \<Longrightarrow> I (s\<lparr>assetGets := x\<rparr>)"
  shows "I s'"
proof -
  have fin: "I (finishPage P dir w c s)" if "I s" for w c s
    by (rule finishPage_preserves [where I = I, OF that]) (rule uq fl pr, assumption)+
  from r show ?thesis
  proof (cases rule: react_cases)
    case (page w u b)
    show ?thesis
      by (rule pageArrived_preserves [where Q = Q and I = I, OF i page(4)])
         (rule ca, assumption+, rule fin, assumption, rule pr, assumption, rule qa)
  next
    case (asset w c j b)
    then have "AwaitAssets c \<in> set (wave s)"
      by (metis nth_mem)
    then have q: "list_all Q (assets c)"
      by (rule wq)
    show ?thesis
      by (rule assetArrived_preserves [where Q = Q and I = I, OF q i asset(5)])
         (rule ca, assumption+, rule fin, assumption, rule fl, assumption, rule sl, assumption)
  next
    case (timer w c j)
    then have "AwaitAssets c \<in> set (wave s)"
      by (metis nth_mem)
    then have q: "list_all Q (assets c)"
      by (rule wq)
    show ?thesis
      by (rule timerFired_preserves [where Q = Q and I = I, OF q i timer(5)])
         (rule ca, assumption+, rule fin, assumption, rule ag, assumption)
  qed
qed

lemma claimPages_preserves:
  assumes "I s" and "claimPages us s = (ts, s')"
    and cp: "\<And>u s t s1. I s \<Longrightarrow> claimPage u s = (t, s1) \<Longrightarrow> I s1"
  shows "I s'"
  using assms(1,2)
proof (induction us arbitrary: s ts s')
  case Nil
  then show ?case by simp
next
  case (Cons u us)
  obtain t s1 where a: "claimPage u s = (t, s1)"
    by (cases "claimPage u s")
  obtain rs s2 where b: "claimPages us s1 = (rs, s2)"
    by (cases "claimPages us s1")
  from Cons.prems a b have "s' = s2"
    by simp
  moreover from Cons.prems a have "I s1"
    using cp [of s u t s1] by simp
  ultimately show ?case
    using Cons.IH [of s1 rs s2] b by simp
qed

lemma dispatch_preserves:
  assumes "I s"
    and cp: "\<And>u s t s1. I s \<Longrightarrow> claimPage u s = (t, s1) \<Longrightarrow> I s1"
    and uq: "\<And>s q. I s \<Longrightarrow> I (s\<lparr>urlQueue := q\<rparr>)"
    and wv: "\<And>s x. I s \<Longrightarrow> I (s\<lparr>wave := x\<rparr>)"
    and cmp: "\<And>s. I s \<Longrightarrow> I (s\<lparr>status := Completed, wave := []\<rparr>)"
  shows "I (dispatch s)"
  using assms(1)
proof (induction s rule: dispatch.induct)
  case (1 s)
  let ?s = "s\<lparr>urlQueue := drop CHUNK_SIZE (urlQueue s)\<rparr>"
  show ?case
  proof (cases "urlQueue s = []")
    case True
    with cmp [OF "1.prems"] show ?thesis
      by (simp add: dispatch.simps [of s])
  next
    case False
    obtain ts s1 where a: "claimPages (take CHUNK_SIZE (urlQueue s)) ?s = (ts, s1)"
      by (cases "claimPages (take CHUNK_SIZE (urlQueue s)) ?s")
    have "I s1"
      by (rule claimPages_preserves [where I = I, OF uq [OF "1.prems"] a]) (rule cp)
    then have w: "I (s1\<lparr>wave := ts\<rparr>)"
      by (rule wv)
    show ?thesis
    proof (cases "list_all isFinished ts")
      case True
      with False a "1.IH" [OF False a [symmetric] True w] show ?thesis
        by (simp add: dispatch.simps [of s])
    next
      case False
      with \<open>urlQueue s \<noteq> []\<close> a w show ?thesis
        by (simp add: dispatch.simps [of s])
    qed
  qed
qed

lemma step_cases:
  obtains (idle) "step P e s = s"
    | (moved) dir k t s1 where "tempDir s = Some dir" and "react P dir e s = Some (k, t, s1)"
        and "step P e s = continue (s1\<lparr>wave := (wave s1)[k := t]\<rparr>)"
  by (cases "tempDir s"; cases "react P (the (tempDir s)) e s") (auto simp: step_def)

lemma step_preserves:
  assumes i: "I s"
    and wq: "\<And>c. AwaitAssets c \<in> set (wave s) \<Longrightarrow> list_all Q (assets c)"
    and ca: "\<And>dir a s f s1. Q a \<Longrightarrow> I s \<Longrightarrow> claimAsset P dir a s = (f, s1) \<Longrightarrow> I s1"
    and qa: "\<And>u doc. list_all Q (collectAssets P u doc)"
    and uq: "\<And>s q. I s \<Longrightarrow> I (s\<lparr>urlQueue := q\<rparr>)"
    and fl: "\<And>s f. I s \<Longrightarrow> I (s\<lparr>files := f\<rparr>)"
    and pr: "\<And>s n. I s \<Longrightarrow> I (pageReturned n s)"
    and sl: "\<And>s x. I s \<Longrightarrow> I (s\<lparr>sleeps := x\<rparr>)"
    and ag: "\<And>s x. I s \<Longrightarrow> I (s\<lparr>assetGets := x\<rparr>)"
    and wv: "\<And>s x. I s \<Longrightarrow> I (s\<lparr>wave := x\<rparr>)"
    and cn: "\<And>s. I s \<Longrightarrow> I (continue s)"
  shows "I (step P e s)"
proof (cases P e s rule: step_cases)
  case idle
  with i show ?thesis
    by simp
next
  case (moved dir k t s1)
  have "I s1"
    by (rule react_preserves [where Q = Q and I = I, OF i moved(2)])
       (assumption | rule wq ca qa uq fl pr sl ag)+
  then have "I (continue (s1\<lparr>wave := (wave s1)[k := t]\<rparr>))"
    by (intro cn wv)
  with moved show ?thesis
    by simp
qed

lemma run_preserves:
  assumes "I s" and "\<And>s e. I s \<Longrightarrow> I (step P e s)"
  shows "I (run P es s)"
  using assms(1) unfolding run_def
  by (induction es arbitrary: s) (simp_all add: assms(2))

section \<open>Invariants of a job\<close>

lemma continue_preserves:
  assumes "I s"
    and cp: "\<And>u s t s1. I s \<Longrightarrow> claimPage u s = (t, s1) \<Longrightarrow> I s1"
    and uq: "\<And>s q. I s \<Longrightarrow> I (s\<lparr>urlQueue := q\<rparr>)"
    and wv: "\<And>s x. I s \<Longrightarrow> I (s\<lparr>wave := x\<rparr>)"
    and cmp: "\<And>s. I s \<Longrightarrow> I (s\<lparr>status := Completed, wave := []\<rparr>)"
  shows "I (continue s)"
proof (cases "status s = Running \<and> list_all isFinished (wave s)")
  case True
  have "I (dispatch s)"
    by (rule dispatch_preserves [where I = I, OF assms(1)]) (assumption | rule cp uq wv cmp)+
  with True show ?thesis
    by (simp add: continue_def)
next
  case False
  with assms(1) show ?thesis
    by (auto simp: continue_def)
qed

text \<open>
  A property that only the claiming of pages and assets can change holds in every state of
  every run, once it holds of the empty job and both claims preserve it.
\<close>

lemma reachable_preserves:
  assumes b: "I blank"
    and ca: "\<And>dir a s f s1. I s \<Longrightarrow> claimAsset P dir a s = (f, s1) \<Longrightarrow> I s1"
    and cp: "\<And>u s t s1. I s \<Longrightarrow> claimPage u s = (t, s1) \<Longrightarrow> I s1"
    and other: "\<And>s st td cr bu bh q n w f sl ag.
        I s \<Longrightarrow> I (s\<lparr>status := st, tempDir := td, created := cr, baseUrl := bu, baseHost := bh,
                     urlQueue := q, totalSize := n, wave := w, files := f, sleeps := sl\<rparr>)"
    and ag: "\<And>s x. I s \<Longrightarrow> I (s\<lparr>assetGets := x\<rparr>)"
  shows "I (run P es (start P dir mk targetUrl))"
proof -
  have update_order: "s\<lparr>totalSize := a, status := c\<rparr> = s\<lparr>status := c, totalSize := a\<rparr>"
    for s :: job and a c
    by (cases s) simp
  have uq: "I (s\<lparr>urlQueue := q\<rparr>)" if "I s" for s q
    using other [where st = "status s" and td = "tempDir s" and cr = "created s" and bu = "baseUrl s" and bh = "baseHost s" and q = q and n = "totalSize s" and w = "wave s" and f = "files s" and sl = "sleeps s", OF that] by simp
  have fl: "I (s\<lparr>files := q\<rparr>)" if "I s" for s q
    using other [where st = "status s" and td = "tempDir s" and cr = "created s" and bu = "baseUrl s" and bh = "baseHost s" and q = "urlQueue s" and n = "totalSize s" and w = "wave s" and f = q and sl = "sleeps s", OF that] by simp
  have sl: "I (s\<lparr>sleeps := q\<rparr>)" if "I s" for s q
    using other [where st = "status s" and td = "tempDir s" and cr = "created s" and bu = "baseUrl s" and bh = "baseHost s" and q = "urlQueue s" and n = "totalSize s" and w = "wave s" and f = "files s" and sl = q, OF that] by simp
  have wv: "I (s\<lparr>wave := q\<rparr>)" if "I s" for s q
    using other [where st = "status s" and td = "tempDir s" and cr = "created s" and bu = "baseUrl s" and bh = "baseHost s" and q = "urlQueue s" and n = "totalSize s" and w = q and f = "files s" and sl = "sleeps s", OF that] by simp
  have cmp: "I (s\<lparr>status := Completed, wave := []\<rparr>)" if "I s" for s
    using other [where st = Completed and td = "tempDir s" and cr = "created s" and bu = "baseUrl s" and bh = "baseHost s" and q = "urlQueue s" and n = "totalSize s" and w = "[]" and f = "files s" and sl = "sleeps s", OF that] by simp
  have pr: "I (pageReturned n s)" if "I s" for s n
    using other [where st = "Failed SiteTooLarge" and td = "tempDir s" and cr = "created s" and bu = "baseUrl s" and bh = "baseHost s" and q = "urlQueue s" and n = "totalSize s + n" and w = "wave s" and f = "files s" and sl = "sleeps s", OF that]
      other [where st = "status s" and td = "tempDir s" and cr = "created s" and bu = "baseUrl s" and bh = "baseHost s" and q = "urlQueue s" and n = "totalSize s + n" and w = "wave s" and f = "files s" and sl = "sleeps s", OF that]
    by (simp add: pageReturned_def Let_def update_order)
  have cn: "I (continue s)" if "I s" for s
    by (rule continue_preserves [where I = I, OF that]) (assumption | rule cp uq wv cmp)+
  have st: "I (step P e s)" if "I s" for s e
    by (rule step_preserves [where I = I and Q = "\<lambda>a. True", OF that])
       (assumption | rule ca uq fl pr sl ag wv cn | simp add: list_all_iff)+
  have "I (dispatch (initial dir target targetUrl))" for target
  proof (rule dispatch_preserves [where I = I])
    show "I (initial dir target targetUrl)"
      using other [where st = Running and td = "Some dir" and cr = True and bu = "origin target" and bh = "host target" and q = "[targetUrl]" and n = 0 and w = "[]" and f = "[]" and sl = "[]", OF b]
      by (simp add: initial_def blank_def)
  qed (assumption | rule cp uq wv cmp)+
  moreover have "I (blank\<lparr>status := Failed SetupFailed, tempDir := Some dir\<rparr>)"
    using other [where st = "Failed SetupFailed" and td = "Some dir" and cr = False and bu = "[]" and bh = "[]" and q = "[]" and n = 0 and w = "[]" and f = "[]" and sl = "[]", OF b]
    by (simp add: blank_def)
  moreover have "I (blank\<lparr>status := Failed SetupFailed, tempDir := Some dir, created := True\<rparr>)"
    using other [where st = "Failed SetupFailed" and td = "Some dir" and cr = True and bu = "[]" and bh = "[]" and q = "[]" and n = 0 and w = "[]" and f = "[]" and sl = "[]", OF b]
    by (simp add: blank_def)
  ultimately have "I (start P dir mk targetUrl)"
    using b by (simp add: start_def split: option.splits)
  then show ?thesis
    by (rule run_preserves) (rule st)
qed

lemma pages_once:
  "distinct (pageGets (run P es (start P dir mk targetUrl))) \<and>
   set (pageGets (run P es (start P dir mk targetUrl)))
     \<subseteq> set (visitedUrls (run P es (start P dir mk targetUrl)))"
  by (rule reachable_preserves
        [where I = "\<lambda>x. distinct (pageGets x) \<and> set (pageGets x) \<subseteq> set (visitedUrls x)"])
     (auto simp: blank_def claimAsset_def claimPage_def Let_def split: option.splits if_splits)


lemma run_without_tempDir: "tempDir s = None \<Longrightarrow> run P es s = s"
  unfolding run_def by (induction es) (simp_all add: step_def)

lemma start_accepted:
  assumes "isValidWebflowUrl P targetUrl"
  shows "\<exists>target. newURL P targetUrl = Some target \<and>
           start P dir True targetUrl =
             (initial dir target targetUrl)
               \<lparr>urlQueue := [], visitedUrls := [targetUrl], pageGets := [targetUrl],
                wave := [AwaitPage targetUrl]\<rparr>"
proof -
  from assms obtain target where t: "newURL P targetUrl = Some target"
    by (auto simp: isValidWebflowUrl_def split: option.splits)
  have "dispatch (initial dir target targetUrl) =
          (initial dir target targetUrl)
            \<lparr>urlQueue := [], visitedUrls := [targetUrl], pageGets := [targetUrl],
             wave := [AwaitPage targetUrl]\<rparr>"
    by (subst dispatch.simps)
       (simp add: initial_def blank_def CHUNK_SIZE_def claimPage_def isFinished_def)
  with assms t show ?thesis
    by (simp add: start_def)
qed

subsection \<open>The tasks in flight\<close>

lemma claimAssets_fetches:
  "claimAssets P dir as s = (fs, s') \<Longrightarrow> list_all2 fetchFor as fs"
proof (induction as arbitrary: s fs s')
  case Nil
  then show ?case by simp
next
  case (Cons a as)
  obtain f s1 where a: "claimAsset P dir a s = (f, s1)"
    by (cases "claimAsset P dir a s")
  obtain gs s2 where b: "claimAssets P dir as s1 = (gs, s2)"
    by (cases "claimAssets P dir as s1")
  from a have "fetchFor a f"
    by (auto simp: claimAsset_def Let_def fetchFor_def retries_def split: if_splits option.splits)
  with Cons.prems a b Cons.IH [OF b] show ?case
    by auto
qed

lemma collectAssets_noDataUrl: "list_all noDataUrl (collectAssets P u doc)"
  by (auto simp: collectAssets_def list_all_iff map_filter_def assetReference_def Let_def
      noDataUrl_def split: if_splits option.splits)

lemma pageBase_noDataUrl: "pageBase P c \<Longrightarrow> list_all noDataUrl (assets c)"
  using collectAssets_noDataUrl [of P "pageUrl c" "dom (html c)"] by (simp add: pageBase_def)

lemma pageBase_next:
  assumes "pageBase P c"
  shows "pageBase P (c\<lparr>pageSize := n, index := index c + MAX_CONCURRENT_DOWNLOADS, chunk := fs\<rparr>)"
  using assms by (simp add: pageBase_def)

lemma assetLoop_taskInv:
  assumes "pageBase P c" and "assetLoop P dir w c s = (t, s')"
  shows "taskInv P t"
  using assms
proof (induction P dir w c s rule: assetLoop.induct)
  case (1 P dir w c s)
  note q = "1.prems"(1) and run = "1.prems"(2)
  let ?sl = "slice (assets c) (index c) (index c + MAX_CONCURRENT_DOWNLOADS)"
  show ?case
  proof (cases "index c < length (assets c)")
    case False
    with run show ?thesis
      by (simp add: assetLoop.simps [of P dir w c s] taskInv_def)
  next
    case True
    obtain fs s1 where a: "claimAssets P dir ?sl s = (fs, s1)"
      by (cases "claimAssets P dir ?sl s")
    show ?thesis
    proof (cases "list_all isSettled fs")
      case False
      with True a run have "t = AwaitAssets (c\<lparr>chunk := fs\<rparr>)"
        by (simp add: assetLoop.simps [of P dir w c s])
      with claimAssets_fetches [OF a] q show ?thesis
        by (simp add: taskInv_def pageInv_def pageBase_def)
    next
      case settled: True
      let ?c = "c\<lparr>pageSize := pageSize c + sum_list (map settledSize fs),
                 index := index c + MAX_CONCURRENT_DOWNLOADS, chunk := []\<rparr>"
      from True a settled run have nxt: "assetLoop P dir w ?c s1 = (t, s')"
        by (simp add: assetLoop.simps [of P dir w c s])
      show ?thesis
        by (rule "1.IH" [OF True a [symmetric] settled pageBase_next [OF q] nxt])
    qed
  qed
qed

lemma resume_taskInv:
  assumes "pageInv P c" and "resume P dir w c s = (t, s')"
  shows "taskInv P t"
proof (cases "list_all isSettled (chunk c)")
  case False
  with assms show ?thesis
    by (auto simp: resume_def taskInv_def)
next
  case True
  let ?c = "c\<lparr>pageSize := pageSize c + sum_list (map settledSize (chunk c)),
              index := index c + MAX_CONCURRENT_DOWNLOADS, chunk := []\<rparr>"
  from True assms(2) have nxt: "assetLoop P dir w ?c s = (t, s')"
    by (simp add: resume_def)
  from assms(1) have "pageBase P ?c"
    by (simp add: pageInv_def pageBase_next)
  then show ?thesis
    using nxt by (rule assetLoop_taskInv)
qed

lemma fetchFor_update:
  assumes "list_all2 fetchFor as fs" and "fetchFor (as ! j) f"
  shows "list_all2 fetchFor as (fs[j := f])"
  using list_all2_update_cong [OF assms, of j] by simp

lemma pageInv_update:
  assumes "pageInv P c"
    and "fetchFor (slice (assets c) (index c) (index c + MAX_CONCURRENT_DOWNLOADS) ! j) f"
  shows "pageInv P (c\<lparr>chunk := (chunk c)[j := f]\<rparr>)"
  using assms by (simp add: pageInv_def pageBase_def fetchFor_update)

lemma pageInv_rewrite:
  assumes "pageInv P c" and "a \<in> set (assets c)"
  shows "pageInv P (c\<lparr>dollar := (dollar c)[element a := el], chunk := (chunk c)[j := Settled n]\<rparr>)"
proof -
  have "dollar c ! k = dom (html c) ! k \<Longrightarrow> k \<notin> element ` set (assets c)
      \<Longrightarrow> (dollar c)[element a := el] ! k = dom (html c) ! k" for k
    using assms(2) by (cases "k = element a") auto
  with assms(1) show ?thesis
    by (auto simp: pageInv_def pageBase_def fetchFor_update fetchFor_def)
qed

lemma pageInv_fetch:
  assumes "pageInv P c" and "j < length (chunk c)"
    and "chunk c ! j = Getting a p k \<or> chunk c ! j = Sleeping a p k"
  shows "slice (assets c) (index c) (index c + MAX_CONCURRENT_DOWNLOADS) ! j = a"
    and "a \<in> set (assets c)" and "k < retries"
proof -
  let ?sl = "slice (assets c) (index c) (index c + MAX_CONCURRENT_DOWNLOADS)"
  from assms have l: "length ?sl = length (chunk c)" and f: "fetchFor (?sl ! j) (chunk c ! j)"
    by (auto simp: pageInv_def list_all2_conv_all_nth)
  from f assms(3) show a: "?sl ! j = a" and "k < retries"
    by (auto simp: fetchFor_def)
  from l assms(2) have "?sl ! j \<in> set ?sl"
    by simp
  with a show "a \<in> set (assets c)"
    by (auto simp: slice_def dest: in_set_dropD in_set_takeD)
qed

lemma pageArrived_taskInv:
  assumes "pageArrived P dir w u b s = (t, s')"
  shows "taskInv P t"
proof (cases "\<exists>body path. b = Some body \<and> getLocalFilePath P u (baseUrl s) dir = Inr path")
  case False
  with assms have "t = Finished"
    by (auto simp: pageArrived_def split: option.splits sum.splits)
  then show ?thesis
    by (simp add: taskInv_def)
next
  case True
  then obtain body path where b: "b = Some body"
    and p: "getLocalFilePath P u (baseUrl s) dir = Inr path"
    by blast
  let ?c = "\<lparr>pageUrl = u, html = body, dollar = dom body, pageSize = byteLength body,
             localFilePath = path, pageDir = path_dirname P path,
             assets = collectAssets P u (dom body), index = 0, chunk = []\<rparr>"
  from b p assms have nxt: "assetLoop P dir w ?c s = (t, s')"
    by (simp add: pageArrived_def)
  have "pageBase P ?c"
    by (simp add: pageBase_def)
  then show ?thesis
    using nxt by (rule assetLoop_taskInv)
qed

lemma assetArrived_taskInv:
  assumes c: "pageInv P c" and j: "j < length (chunk c)"
    and r: "assetArrived P dir w c j b s = (t, s')"
  shows "taskInv P t"
proof (cases "chunk c ! j")
  case (Settled n)
  with r c show ?thesis
    by (auto simp: assetArrived_def taskInv_def)
next
  case (Sleeping a p k)
  with r c show ?thesis
    by (auto simp: assetArrived_def taskInv_def)
next
  case (Getting a p k)
  note f = pageInv_fetch [OF c j disjI1 [OF Getting]]
  show ?thesis
  proof (cases "downloadAsset_pass retries k b")
    case (Return n)
    with Getting r show ?thesis
      using resume_taskInv [OF pageInv_rewrite [OF c f(2)]] by (simp add: assetArrived_def Let_def)
  next
    case Throw
    have "pageInv P (c\<lparr>chunk := (chunk c)[j := Settled 0]\<rparr>)"
      by (rule pageInv_update [OF c]) (simp add: fetchFor_def)
    with Getting Throw r show ?thesis
      using resume_taskInv by (simp add: assetArrived_def)
  next
    case (Sleep ms)
    then have "Suc k \<noteq> retries"
      by (auto simp: downloadAsset_pass_def Let_def split: option.splits if_splits)
    with f(3) have "Suc k < retries"
      by simp
    with f(1) have "pageInv P (c\<lparr>chunk := (chunk c)[j := Sleeping a p k]\<rparr>)"
      by (intro pageInv_update [OF c]) (simp add: fetchFor_def)
    with Getting Sleep r show ?thesis
      by (auto simp: assetArrived_def taskInv_def)
  qed
qed

lemma timerFired_taskInv:
  assumes c: "pageInv P c" and j: "j < length (chunk c)"
    and r: "timerFired P dir w c j s = (t, s')"
  shows "taskInv P t"
proof (cases "chunk c ! j")
  case (Settled n)
  with r c show ?thesis
    by (auto simp: timerFired_def taskInv_def)
next
  case (Getting a p k)
  with r c show ?thesis
    by (auto simp: timerFired_def taskInv_def)
next
  case (Sleeping a p k)
  note f = pageInv_fetch [OF c j disjI2 [OF Sleeping]]
  show ?thesis
  proof (cases "Suc k < retries")
    case True
    with f(1) have "pageInv P (c\<lparr>chunk := (chunk c)[j := Getting a p (Suc k)]\<rparr>)"
      by (intro pageInv_update [OF c]) (simp add: fetchFor_def)
    with Sleeping True r show ?thesis
      by (auto simp: timerFired_def taskInv_def)
  next
    case False
    have "pageInv P (c\<lparr>chunk := (chunk c)[j := Settled 0]\<rparr>)"
      by (rule pageInv_update [OF c]) (simp add: fetchFor_def)
    with Sleeping False r show ?thesis
      using resume_taskInv by (simp add: timerFired_def)
  qed
qed

lemma waveInv_page:
  assumes "waveInv P s" and "k < length (wave s)" and "wave s ! k = AwaitAssets c"
  shows "pageInv P c"
  using assms by (auto simp: waveInv_def list_all_length taskInv_def split: task.splits)

lemma react_taskInv:
  assumes "waveInv P s" and r: "react P dir e s = Some (k, t, s')"
  shows "taskInv P t"
  using r
proof (cases rule: react_cases)
  case (page w u b)
  then show ?thesis
    by (simp add: pageArrived_taskInv)
next
  case (asset w c j b)
  have "pageInv P c"
    by (rule waveInv_page [OF assms(1) asset(2) asset(3)])
  then show ?thesis
    by (rule assetArrived_taskInv [OF _ asset(4) asset(5)])
next
  case (timer w c j)
  have "pageInv P c"
    by (rule waveInv_page [OF assms(1) timer(2) timer(3)])
  then show ?thesis
    by (rule timerFired_taskInv [OF _ timer(4) timer(5)])
qed

text \<open>The fields that no transition of a task writes.\<close>

lemma react_frame:
  assumes "react P dir e s = Some (k, t, s')"
  shows "wave s' = wave s \<and> tempDir s' = tempDir s \<and> created s' = created s \<and>
         baseUrl s' = baseUrl s \<and> baseHost s' = baseHost s \<and>
         visitedUrls s' = visitedUrls s \<and> pageGets s' = pageGets s"
  by (rule react_preserves
        [where Q = "\<lambda>a. True"
           and I = "\<lambda>x. wave x = wave s \<and> tempDir x = tempDir s \<and> created x = created s \<and>
                    baseUrl x = baseUrl s \<and> baseHost x = baseHost s \<and>
                    visitedUrls x = visitedUrls s \<and> pageGets x = pageGets s",
         OF _ assms])
     (auto simp: claimAsset_def pageReturned_def Let_def list_all_iff split: option.splits if_splits)

lemma claimPages_tasks:
  "claimPages us s = (ts, s') \<Longrightarrow> length ts = length us \<and> list_all (taskInv P) ts"
proof (induction us arbitrary: s ts s')
  case Nil
  then show ?case by simp
next
  case (Cons u us)
  obtain t s1 where a: "claimPage u s = (t, s1)"
    by (cases "claimPage u s")
  obtain rs s2 where b: "claimPages us s1 = (rs, s2)"
    by (cases "claimPages us s1")
  from a have "taskInv P t"
    by (auto simp: claimPage_def taskInv_def split: if_splits)
  with Cons.prems a b Cons.IH [OF b] show ?case
    by auto
qed

lemma dispatch_waveInv: "waveInv P (dispatch s)"
proof (induction s rule: dispatch.induct)
  case (1 s)
  let ?s = "s\<lparr>urlQueue := drop CHUNK_SIZE (urlQueue s)\<rparr>"
  show ?case
  proof (cases "urlQueue s = []")
    case True
    then show ?thesis
      by (simp add: dispatch.simps [of s] waveInv_def)
  next
    case False
    obtain ts s1 where a: "claimPages (take CHUNK_SIZE (urlQueue s)) ?s = (ts, s1)"
      by (cases "claimPages (take CHUNK_SIZE (urlQueue s)) ?s")
    show ?thesis
    proof (cases "list_all isFinished ts")
      case True
      with False a "1.IH" [OF False a [symmetric] True] show ?thesis
        by (simp add: dispatch.simps [of s])
    next
      case False
      with \<open>urlQueue s \<noteq> []\<close> a claimPages_tasks [OF a, of P] show ?thesis
        by (simp add: dispatch.simps [of s] waveInv_def)
    qed
  qed
qed

lemma step_waveInv:
  assumes "waveInv P s"
  shows "waveInv P (step P e s)"
proof (cases P e s rule: step_cases)
  case idle
  with assms show ?thesis
    by simp
next
  case (moved dir k t s1)
  from react_taskInv [OF assms moved(2)] react_frame [OF moved(2)] assms
  have "waveInv P (s1\<lparr>wave := (wave s1)[k := t]\<rparr>)"
    using set_update_subset_insert [of "wave s" k t] by (auto simp: waveInv_def list_all_iff)
  with moved(3) dispatch_waveInv show ?thesis
    by (simp add: continue_def)
qed

lemma start_waveInv: "waveInv P (start P dir mk targetUrl)"
  using dispatch_waveInv by (simp add: start_def blank_def waveInv_def split: option.splits)

lemma run_waveInv: "waveInv P (run P es (start P dir mk targetUrl))"
  by (rule run_preserves [where I = "waveInv P", OF start_waveInv]) (rule step_waveInv)

subsection \<open>Attempts and delays\<close>

lemma pass_Sleep:
  assumes "downloadAsset_pass retries k b = Sleep ms" and "k < retries"
  shows "ms = 1000 * 2 ^ k \<and> Suc k < retries"
  using assms by (auto simp: downloadAsset_pass_def Let_def split: option.splits if_splits)

lemma attempts_step:
  assumes w: "waveInv P s"
    and i: "(\<forall>x \<in> set (assetGets s). snd x < retries) \<and> set (sleeps s) \<subseteq> {1000, 2000}"
  shows "(\<forall>x \<in> set (assetGets (step P e s)). snd x < retries) \<and>
         set (sleeps (step P e s)) \<subseteq> {1000, 2000}"
proof (cases P e s rule: step_cases)
  case idle
  with i show ?thesis
    by simp
next
  case (moved dir k t s1)
  let ?I = "\<lambda>x. (\<forall>y \<in> set (assetGets x). snd y < retries) \<and> set (sleeps x) \<subseteq> {1000, 2000}"
  have ca: "?I y" if "?I x" and "claimAsset P dir a x = (f, y)" for a x f y
    using that
    by (auto simp: claimAsset_def Let_def retries_def split: if_splits option.splits)
  have pr: "?I (pageReturned n x)" if "?I x" for x n
    using that by (simp add: pageReturned_def Let_def)
  have fin: "?I (finishPage P dir v c x)" if "?I x" for v c x
    by (rule finishPage_preserves [where I = ?I, OF that]) (simp_all add: pr)
  have res: "?I y" if "?I x" and "resume P dir v c x = (u, y)" for v c x u y
    by (rule resume_preserves [where Q = "\<lambda>a. True" and I = ?I, OF _ that])
       (simp add: list_all_iff, rule ca, assumption+, rule fin)
  have "?I s1"
    using moved(2)
  proof (cases rule: react_cases)
    case (page v u b)
    show ?thesis
      by (rule pageArrived_preserves [where Q = "\<lambda>a. True" and I = ?I, OF i page(4)])
         (rule ca, assumption+, rule fin, assumption, rule pr, assumption,
          simp add: list_all_iff)
  next
    case (asset v c j b)
    have c: "pageInv P c"
      by (rule waveInv_page [OF w asset(2) asset(3)])
    show ?thesis
    proof (cases "chunk c ! j")
      case (Settled n)
      with asset(5) i show ?thesis
        by (auto simp: assetArrived_def)
    next
      case (Sleeping a p m)
      with asset(5) i show ?thesis
        by (auto simp: assetArrived_def)
    next
      case (Getting a p m)
      from pageInv_fetch(3) [OF c asset(4) disjI1 [OF Getting]] have m: "m < retries" .
      show ?thesis
      proof (cases "downloadAsset_pass retries m b")
        case (Return n)
        with Getting asset(5) show ?thesis
          using res [of "s\<lparr>files := files s @ [(p, AssetFile n)]\<rparr>"] i
          by (simp add: assetArrived_def Let_def)
      next
        case Throw
        with Getting asset(5) show ?thesis
          using res [of s] i by (simp add: assetArrived_def)
      next
        case (Sleep ms)
        from pass_Sleep [OF Sleep m] have "ms = 1000 \<or> ms = 2000"
          by (cases m; cases "m - 1") (auto simp: retries_def)
        with Getting Sleep asset(5) i show ?thesis
          by (auto simp: assetArrived_def)
      qed
    qed
  next
    case (timer v c j)
    show ?thesis
    proof (cases "chunk c ! j")
      case (Settled n)
      with timer(5) i show ?thesis
        by (auto simp: timerFired_def)
    next
      case (Getting a p m)
      with timer(5) i show ?thesis
        by (auto simp: timerFired_def)
    next
      case (Sleeping a p m)
      show ?thesis
      proof (cases "Suc m < retries")
        case True
        with Sleeping timer(5) i show ?thesis
          by (auto simp: timerFired_def)
      next
        case False
        with Sleeping timer(5) show ?thesis
          using res [of s] i by (simp add: timerFired_def)
      qed
    qed
  qed
  then have "?I (s1\<lparr>wave := (wave s1)[k := t]\<rparr>)"
    by simp
  then have "?I (continue (s1\<lparr>wave := (wave s1)[k := t]\<rparr>))"
    by (rule continue_preserves [where I = ?I]) (auto simp: claimPage_def split: if_splits)
  with moved(3) show ?thesis
    by simp
qed

lemma attempts_bounded:
  "(\<forall>x \<in> set (assetGets (run P es (start P dir mk targetUrl))). snd x < retries) \<and>
   set (sleeps (run P es (start P dir mk targetUrl))) \<subseteq> {1000, 2000}"
proof -
  let ?I = "\<lambda>x. (\<forall>y \<in> set (assetGets x). snd y < retries) \<and> set (sleeps x) \<subseteq> {1000, 2000}"
  have "?I (dispatch (initial dir target targetUrl))" for target
    by (rule dispatch_preserves [where I = ?I])
       (auto simp: initial_def blank_def claimPage_def split: if_splits)
  then have "?I (start P dir mk targetUrl)"
    by (simp add: start_def blank_def split: option.splits)
  with start_waveInv [of P dir mk targetUrl]
  have "waveInv P (start P dir mk targetUrl) \<and> ?I (start P dir mk targetUrl)"
    by simp
  then have "waveInv P (run P es (start P dir mk targetUrl)) \<and> ?I (run P es (start P dir mk targetUrl))"
  proof (rule run_preserves [where I = "\<lambda>x. waveInv P x \<and> ?I x"])
    fix s e
    assume a: "waveInv P s \<and> ?I s"
    then have "waveInv P (step P e s)"
      by (simp add: step_waveInv)
    moreover from a have "?I (step P e s)"
      using attempts_step [of P s e] by blast
    ultimately show "waveInv P (step P e s) \<and> ?I (step P e s)"
      by simp
  qed
  then show ?thesis
    by simp
qed

subsection \<open>The byte total and the status\<close>














section \<open>The claims\<close>





lemma downloadAsset_unfolded:
  "downloadAsset rs =
     (case downloadAsset_pass 3 0 (rs 0) of
        Return n \<Rightarrow> \<lparr>requests = [0], delays = [], outcome = Some n\<rparr>
      | Throw \<Rightarrow> \<lparr>requests = [0], delays = [], outcome = None\<rparr>
      | Sleep a \<Rightarrow>
          (case downloadAsset_pass 3 (Suc 0) (rs (Suc 0)) of
             Return n \<Rightarrow> \<lparr>requests = [0, Suc 0], delays = [a], outcome = Some n\<rparr>
           | Throw \<Rightarrow> \<lparr>requests = [0, Suc 0], delays = [a], outcome = None\<rparr>
           | Sleep b \<Rightarrow>
               (case downloadAsset_pass 3 (Suc (Suc 0)) (rs (Suc (Suc 0))) of
                  Return n \<Rightarrow>
                    \<lparr>requests = [0, Suc 0, Suc (Suc 0)], delays = [a, b], outcome = Some n\<rparr>
                | Throw \<Rightarrow>
                    \<lparr>requests = [0, Suc 0, Suc (Suc 0)], delays = [a, b], outcome = None\<rparr>
                | Sleep c \<Rightarrow>
                    \<lparr>requests = [0, Suc 0, Suc (Suc 0)], delays = [a, b, c],
                     outcome = Some 0\<rparr>)))"
  unfolding downloadAsset_def
  apply (subst downloadAsset_from.simps)
  apply (subst downloadAsset_from.simps)
  apply (subst downloadAsset_from.simps)
  apply (subst downloadAsset_from.simps)
  apply (simp split: pass.splits)
  done

text \<open>
  C4, as the code has it. An asset goes through the retry loop of \<open>downloadAsset\<close>: at most
  three requests, numbered 0, 1, 2; after the failed request \<open>i\<close> that is not the last, a
  delay of \<open>1000 * 2 ^ i\<close> milliseconds (1000, then 2000); the call throws only when all three
  requests failed, and otherwise returns the size that the first request to succeed
  delivered, where a request fails when it is rejected or delivers more than the size
  ceiling. In every state of every run each logged asset request has a loop index below 3
  and each logged delay is 1000 or 2000. A page does not go through the loop: it is
  requested once, and a rejected page request ends \<open>downloadPage\<close> with 0 and no further
  request.
\<close>

theorem retry_only_for_assets:
  "(let d = downloadAsset rs;
        failed = (\<lambda>k. case rs k of None \<Rightarrow> True | Some n \<Rightarrow> MAX_SIZE_MB * 1024 * 1024 < n);
        n = length (requests d)
    in 1 \<le> n \<and> n \<le> 3 \<and> requests d = [0..<n] \<and>
       delays d = map (\<lambda>i. 1000 * 2 ^ i) [0..<n - 1] \<and>
       (\<forall>k < n - 1. failed k) \<and>
       (outcome d = None \<longleftrightarrow> failed 0 \<and> failed 1 \<and> failed 2) \<and>
       (outcome d \<noteq> None \<longrightarrow> \<not> failed (n - 1) \<and> outcome d = rs (n - 1))) \<and>
   (let s = run P es (start P dir mk targetUrl)
    in (\<forall>x \<in> set (assetGets s). snd x < 3) \<and> set (sleeps s) \<subseteq> {1000, 2000} \<and>
       distinct (pageGets s)) \<and>
   pageArrived P dir w u None s' = (Finished, pageReturned 0 s') \<and>
   pageGets (pageReturned 0 s') = pageGets s' \<and> sleeps (pageReturned 0 s') = sleeps s'"
proof -
  have up: "[0..<3] = [0, Suc 0, Suc (Suc 0)]" "[0..<2] = [0, Suc 0]"
    by (simp_all add: upt_rec)
  have a: "let d = downloadAsset rs;
        failed = (\<lambda>k. case rs k of None \<Rightarrow> True | Some n \<Rightarrow> MAX_SIZE_MB * 1024 * 1024 < n);
        n = length (requests d)
    in 1 \<le> n \<and> n \<le> 3 \<and> requests d = [0..<n] \<and>
       delays d = map (\<lambda>i. 1000 * 2 ^ i) [0..<n - 1] \<and>
       (\<forall>k < n - 1. failed k) \<and>
       (outcome d = None \<longleftrightarrow> failed 0 \<and> failed 1 \<and> failed 2) \<and>
       (outcome d \<noteq> None \<longrightarrow> \<not> failed (n - 1) \<and> outcome d = rs (n - 1))"
    by (cases "rs 0"; cases "rs 1"; cases "rs 2")
       (auto simp: downloadAsset_unfolded downloadAsset_pass_def Let_def up less_Suc_eq
          numeral_2_eq_2 numeral_3_eq_3)
  have b: "pageArrived P dir w u None s' = (Finished, pageReturned 0 s')"
    by (simp add: pageArrived_def)
  have c: "pageGets (pageReturned 0 s') = pageGets s' \<and> sleeps (pageReturned 0 s') = sleeps s'"
    by (simp add: pageReturned_def Let_def)
  have d: "let s = run P es (start P dir mk targetUrl)
    in (\<forall>x \<in> set (assetGets s). snd x < 3) \<and> set (sleeps s) \<subseteq> {1000, 2000} \<and>
       distinct (pageGets s)"
    using attempts_bounded [of P es dir mk targetUrl] pages_once [of P es dir mk targetUrl]
    by (simp add: Let_def retries_def)
  show ?thesis
    by (intro conjI a d b c [THEN conjunct1] c [THEN conjunct2])
qed

theorem retry_only_for_assets_witness:
  "(let d = downloadAsset (\<lambda>k. if k < 2 then None else Some 7)
    in requests d = [0, 1, 2] \<and> delays d = [1000, 2000] \<and> outcome d = Some 7) \<and>
   (let s = run node
              [PageResponse 0 (Some homePage) True, AssetResponse 0 0 None True,
               TimerFired 0 0 True, AssetResponse 0 0 None True, TimerFired 0 0 True,
               AssetResponse 0 0 None True]
              (start node ''/tmp/w'' True ''https://x.webflow.io/'')
    in assetGets s = [(''https://x.webflow.io/s.css'', 0), (''https://x.webflow.io/s.css'', 1),
                      (''https://x.webflow.io/s.css'', 2)] \<and>
       sleeps s = [1000, 2000] \<and> (\<forall>x \<in> set (assetGets s). snd x < 3))"
proof -
  let ?rs = "\<lambda>k::nat. if k < 2 then None else Some (7::nat)"
  let ?es = "[PageResponse 0 (Some homePage) True, AssetResponse 0 0 None True,
               TimerFired 0 0 True, AssetResponse 0 0 None True, TimerFired 0 0 True,
               AssetResponse 0 0 None True]"
  let ?s = "run node ?es (start node ''/tmp/w'' True ''https://x.webflow.io/'')"
  have "requests (downloadAsset ?rs) = [0, 1, 2]"
    by code_simp
  moreover have "delays (downloadAsset ?rs) = [1000, 2000]"
    by code_simp
  moreover have "outcome (downloadAsset ?rs) = Some 7"
    by code_simp
  moreover have "assetGets ?s = [(''https://x.webflow.io/s.css'', 0),
      (''https://x.webflow.io/s.css'', 1), (''https://x.webflow.io/s.css'', 2)]"
    by code_simp
  moreover have "sleeps ?s = [1000, 2000]"
    by code_simp
  moreover have "\<forall>x \<in> set (assetGets ?s). snd x < 3"
    using retry_only_for_assets [of ?rs node ?es "''/tmp/w''" True "''https://x.webflow.io/''"]
    by (simp add: Let_def)
  ultimately show ?thesis
    by (simp add: Let_def)
qed

text \<open>
  Against C4 as stated: the request of the home page is rejected once. The job makes no
  second attempt and sleeps no delay; it leaves its loop with that one request made and
  no file written.
\<close>

theorem page_not_retried_counterexample:
  "(let s = run node [PageResponse 0 None True] (start node ''/tmp/w'' True ''https://x.webflow.io/'')
    in status s = Completed \<and> pageGets s = [''https://x.webflow.io/''] \<and> sleeps s = [] \<and>
       files s = [] \<and> wave s = [])"
  by code_simp




text \<open>
  C6. A target URL that does not parse, or whose hostname ends in neither
  \<^verbatim>\<open>webflow.io\<close> nor \<^verbatim>\<open>webflow.com\<close>, is rejected: the job is \<open>Rejected\<close> with no working
  area, no request and no file, and stays so whatever arrives. A target URL whose hostname
  ends in one of the two suffixes is accepted, and the job starts with the request of that
  page. The suffix test compares characters as they are.
\<close>

theorem target_validation:
  "((newURL P targetUrl = None \<or>
     (\<exists>parsed. newURL P targetUrl = Some parsed \<and>
        \<not> suffix ''webflow.io'' (hostname parsed) \<and> \<not> suffix ''webflow.com'' (hostname parsed)))
    \<longrightarrow> \<not> isValidWebflowUrl P targetUrl \<and> run P es (start P dir mk targetUrl) = blank) \<and>
   ((\<exists>parsed. newURL P targetUrl = Some parsed \<and>
        (suffix ''webflow.io'' (hostname parsed) \<or> suffix ''webflow.com'' (hostname parsed)))
    \<longrightarrow> isValidWebflowUrl P targetUrl \<and>
         status (start P dir True targetUrl) = Running \<and>
         created (start P dir True targetUrl) \<and>
         wave (start P dir True targetUrl) = [AwaitPage targetUrl]) \<and>
   status blank = Rejected \<and> tempDir blank = None \<and> \<not> created blank \<and>
   pageGets blank = [] \<and> assetCalls blank = [] \<and> assetGets blank = [] \<and> files blank = []"
proof -
  have rejected: "run P es (start P dir mk targetUrl) = blank" if "\<not> isValidWebflowUrl P targetUrl"
    using that run_without_tempDir [of blank P es] by (simp add: start_def blank_def)
  have accepted: "status (start P dir True targetUrl) = Running \<and>
      created (start P dir True targetUrl) \<and>
      wave (start P dir True targetUrl) = [AwaitPage targetUrl]" if "isValidWebflowUrl P targetUrl"
    using start_accepted [OF that, of dir] by (auto simp: initial_def blank_def)
  show ?thesis
    using rejected accepted
    by (auto simp: isValidWebflowUrl_def endsWith_def blank_def split: option.splits)
qed

theorem target_validation_witness:
  "newURL node ''not a url'' = None \<and>
   run node twoPageCrawl (start node ''/tmp/w'' True ''not a url'') = blank \<and>
   (\<exists>parsed. newURL node ''https://evil.example.com/'' = Some parsed \<and>
      \<not> suffix ''webflow.io'' (hostname parsed) \<and> \<not> suffix ''webflow.com'' (hostname parsed)) \<and>
   run node twoPageCrawl (start node ''/tmp/w'' True ''https://evil.example.com/'') = blank \<and>
   (\<exists>parsed. newURL node ''https://x.webflow.io/'' = Some parsed \<and>
      (suffix ''webflow.io'' (hostname parsed) \<or> suffix ''webflow.com'' (hostname parsed))) \<and>
   wave (start node ''/tmp/w'' True ''https://x.webflow.io/'') = [AwaitPage ''https://x.webflow.io/'']"
proof -
  have a: "newURL node ''not a url'' = None"
    by code_simp
  have b: "newURL node ''https://evil.example.com/'' = Some (https ''evil.example.com'' ''/'' [])"
    by code_simp
  have b': "\<not> suffix ''webflow.io'' (hostname (https ''evil.example.com'' ''/'' [])) \<and>
      \<not> suffix ''webflow.com'' (hostname (https ''evil.example.com'' ''/'' []))"
    by code_simp
  have c: "newURL node ''https://x.webflow.io/'' = Some (https ''x.webflow.io'' ''/'' [])"
    by code_simp
  have c': "suffix ''webflow.io'' (hostname (https ''x.webflow.io'' ''/'' []))"
    by code_simp
  show ?thesis
    using a b b' c c'
      target_validation [of node "''not a url''" twoPageCrawl "''/tmp/w''" True]
      target_validation [of node "''https://evil.example.com/''" twoPageCrawl "''/tmp/w''" True]
      target_validation [of node "''https://x.webflow.io/''" twoPageCrawl "''/tmp/w''" True]
    by simp
qed

lemma assetLoop_page:
  assumes "assetLoop P dir w c s = (AwaitAssets c', s')"
  shows "pageUrl c' = pageUrl c \<and> localFilePath c' = localFilePath c \<and> pageDir c' = pageDir c \<and>
         assets c' = assets c \<and> dollar c' = dollar c"
  using assms
proof (induction P dir w c s rule: assetLoop.induct)
  case (1 P dir w c s)
  let ?sl = "slice (assets c) (index c) (index c + MAX_CONCURRENT_DOWNLOADS)"
  obtain fs s1 where a: "claimAssets P dir ?sl s = (fs, s1)"
    by (cases "claimAssets P dir ?sl s")
  show ?case
  proof (cases "index c < length (assets c) \<and> list_all isSettled fs")
    case False
    with "1.prems" a show ?thesis
      by (auto simp: assetLoop.simps [of P dir w c s] split: if_splits)
  next
    case True
    let ?c = "c\<lparr>pageSize := pageSize c + sum_list (map settledSize fs),
               index := index c + MAX_CONCURRENT_DOWNLOADS, chunk := []\<rparr>"
    from True a "1.prems" have "assetLoop P dir w ?c s1 = (AwaitAssets c', s')"
      by (simp add: assetLoop.simps [of P dir w c s])
    with "1.IH" [OF _ a [symmetric], of ] True show ?thesis
      by simp
  qed
qed

text \<open>
  C7. \<open>getLocalFilePath\<close> is a function of its arguments: equal arguments give equal
  results, the error included. It does not even depend on the origin it is passed, and
  not on the state of the job: the path under which \<open>downloadPage\<close> will write a page
  that has arrived is the path that \<open>getLocalFilePath\<close> gives for the page's URL, for any
  origin and in any state of the visited sets, the queue and the files. The embedding
  gives the function no access to the job state, as its body has none.
\<close>

theorem path_mapper_deterministic:
  "(u = u' \<and> b = b' \<and> root = root'
      \<longrightarrow> getLocalFilePath P u b root = getLocalFilePath P u' b' root') \<and>
   getLocalFilePath P u b root = getLocalFilePath P u b'' root \<and>
   (pageArrived P root w u r s = (AwaitAssets c, s')
      \<longrightarrow> getLocalFilePath P u b root = Inr (localFilePath c))"
proof -
  have indep: "getLocalFilePath P u x root = getLocalFilePath P u y root" for x y
    by (simp add: getLocalFilePath_def)
  have "getLocalFilePath P u b root = Inr (localFilePath c)"
    if a: "pageArrived P root w u r s = (AwaitAssets c, s')"
  proof -
    from a obtain body where r: "r = Some body"
      by (cases r) (auto simp: pageArrived_def)
    with a obtain path where p: "getLocalFilePath P u (baseUrl s) root = Inr path"
      by (cases "getLocalFilePath P u (baseUrl s) root") (auto simp: pageArrived_def)
    from a r p
    have l: "assetLoop P root w
               \<lparr>pageUrl = u, html = body, dollar = dom body, pageSize = byteLength body,
                localFilePath = path, pageDir = path_dirname P path,
                assets = collectAssets P u (dom body), index = 0, chunk = []\<rparr> s
              = (AwaitAssets c, s')"
      by (simp add: pageArrived_def)
    from assetLoop_page [OF l] p indep [of b "baseUrl s"] show ?thesis
      by simp
  qed
  with indep show ?thesis
    by auto
qed

theorem path_mapper_deterministic_witness:
  "getLocalFilePath node ''https://x.webflow.io/about'' ''https://x.webflow.io'' ''/tmp/w''
     = getLocalFilePath node ''https://x.webflow.io/about'' ''https://other.example'' ''/tmp/w'' \<and>
   (\<exists>c s'. pageArrived node ''/tmp/w'' True ''https://x.webflow.io/'' (Some homePage)
              (start node ''/tmp/w'' True ''https://x.webflow.io/'') = (AwaitAssets c, s') \<and>
            getLocalFilePath node ''https://x.webflow.io/'' ''https://x.webflow.io'' ''/tmp/w''
              = Inr (localFilePath c) \<and>
            localFilePath c = ''/tmp/w/index.html'')"
proof -
  let ?s = "start node ''/tmp/w'' True ''https://x.webflow.io/''"
  let ?r = "pageArrived node ''/tmp/w'' True ''https://x.webflow.io/'' (Some homePage) ?s"
  obtain t s' where r: "?r = (t, s')"
    by (cases ?r)
  have "fst ?r = AwaitAssets
      \<lparr>pageUrl = ''https://x.webflow.io/'', html = homePage, dollar = dom homePage, pageSize = 200,
       localFilePath = ''/tmp/w/index.html'', pageDir = ''/tmp/w'',
       assets = [\<lparr>url = ''https://x.webflow.io/s.css'', element = 0, attr = ''href''\<rparr>],
       index = 0,
       chunk = [Getting \<lparr>url = ''https://x.webflow.io/s.css'', element = 0, attr = ''href''\<rparr>
                  ''/tmp/w/s.css'' 0]\<rparr>"
    by code_simp
  with r obtain c where c: "?r = (AwaitAssets c, s')" and l: "localFilePath c = ''/tmp/w/index.html''"
    by auto
  from c l
    path_mapper_deterministic [of "''https://x.webflow.io/about''" "''https://x.webflow.io/about''"
      "''https://x.webflow.io''" "''https://x.webflow.io''" "''/tmp/w''" "''/tmp/w''" node
      "''https://other.example''"]
    path_mapper_deterministic [of "''https://x.webflow.io/''" "''https://x.webflow.io/''"
      "''https://x.webflow.io''" "''https://x.webflow.io''" "''/tmp/w''" "''/tmp/w''" node
      "''https://x.webflow.io''" True "Some homePage" ?s c s']
  show ?thesis
    by auto
qed

text \<open>
  C8, as the code has it. The assets of a page are fetched in chunks of at most
  \<open>MAX_CONCURRENT_DOWNLOADS = 10\<close> entries, while a wave of pages has at most
  \<open>CHUNK_SIZE = 15\<close>: in every state of every run the wave has at most 15 tasks, and the
  callbacks of a page in its asset loop are those of
  \<^verbatim>\<open>assets.slice(i, i + 10)\<close> for an \<open>i\<close> that is a multiple of 10, so at most 10.
\<close>

theorem asset_chunks_of_ten:
  "MAX_CONCURRENT_DOWNLOADS = 10 \<and> CHUNK_SIZE = 15 \<and>
   (let s = run P es (start P dir mk targetUrl)
    in length (wave s) \<le> 15 \<and>
       (\<forall>c. AwaitAssets c \<in> set (wave s)
          \<longrightarrow> length (chunk c) = length (slice (assets c) (index c) (index c + 10)) \<and>
               length (chunk c) = min 10 (length (assets c) - index c) \<and>
               length (chunk c) \<le> 10 \<and> index c mod 10 = 0))"
proof -
  let ?s = "run P es (start P dir mk targetUrl)"
  have w: "waveInv P ?s"
    by (rule run_waveInv)
  then have a: "length (wave ?s) \<le> 15"
    by (simp add: waveInv_def CHUNK_SIZE_def)
  have b: "length (chunk c) = length (slice (assets c) (index c) (index c + 10)) \<and>
      length (chunk c) = min 10 (length (assets c) - index c) \<and>
      length (chunk c) \<le> 10 \<and> index c mod 10 = 0" if "AwaitAssets c \<in> set (wave ?s)" for c
  proof -
    from w that have "pageInv P c"
      by (auto simp: waveInv_def list_all_iff taskInv_def)
    then have "length (slice (assets c) (index c) (index c + 10)) = length (chunk c)"
      and "index c mod 10 = 0"
      by (auto simp: pageInv_def pageBase_def MAX_CONCURRENT_DOWNLOADS_def
          dest: list_all2_lengthD)
    then show ?thesis
      by (auto simp: slice_def)
  qed
  have m: "MAX_CONCURRENT_DOWNLOADS = 10" "CHUNK_SIZE = 15"
    by (simp_all add: MAX_CONCURRENT_DOWNLOADS_def CHUNK_SIZE_def)
  show ?thesis
    unfolding Let_def using m a b by blast
qed

theorem asset_chunks_of_ten_witness:
  "(let s = run node [PageResponse 0 (Some galleryPage) True]
              (start node ''/tmp/w'' True ''https://x.webflow.io/'')
    in (\<exists>c. AwaitAssets c \<in> set (wave s) \<and> length (assets c) = 15 \<and> index c = 0 \<and>
             length (chunk c) = 10))"
proof -
  let ?s = "run node [PageResponse 0 (Some galleryPage) True]
              (start node ''/tmp/w'' True ''https://x.webflow.io/'')"
  let ?f = "\<lambda>t. case t of AwaitAssets c \<Rightarrow> (length (assets c), index c)
                  | AwaitPage u \<Rightarrow> (0, 0) | Finished \<Rightarrow> (0, 0)"
  have "map ?f (wave ?s) = [(15, 0)]"
    by code_simp
  then obtain t where t: "wave ?s = [t]" and f: "?f t = (15, 0)"
    by (cases "wave ?s") auto
  from f obtain c where "t = AwaitAssets c" "length (assets c) = 15" "index c = 0"
    by (cases t) auto
  with t have c: "AwaitAssets c \<in> set (wave ?s)" "length (assets c) = 15" "index c = 0"
    by simp_all
  from c(1) asset_chunks_of_ten [of node "[PageResponse 0 (Some galleryPage) True]" "''/tmp/w''"
      True "''https://x.webflow.io/''", unfolded Let_def]
  have "length (chunk c) = min 10 (length (assets c) - index c)"
    by blast
  with c have "length (chunk c) = 10"
    by simp
  with c show ?thesis
    unfolding Let_def by blast
qed

text \<open>
  Against C8 as stated: a page with fifteen images, each to be fetched. With chunks of 15
  all fifteen would be started when the page arrives; the code starts ten.
\<close>

theorem asset_wave_size_counterexample:
  "(let s = run node [PageResponse 0 (Some galleryPage) True]
              (start node ''/tmp/w'' True ''https://x.webflow.io/'')
    in length (collectAssets node ''https://x.webflow.io/'' (dom galleryPage)) = 15 \<and>
       length (assetCalls s) = 10 \<and> length (assetGets s) = 10 \<and>
       assetCalls s = map imageUrl ''abcdefghij'')"
  by code_simp

text \<open>
  C10. The queue starts as the target URL exactly as it was submitted, and the first
  request is for that string; the links found later are queued under
  \<^verbatim>\<open>absoluteLink.split('#')[0].split('?')[0]\<close>. So for the target
  \<^verbatim>\<open>https://x.webflow.io/?ref=1\<close>, whose page links to itself, the key of the link is
  \<^verbatim>\<open>https://x.webflow.io/\<close>, which is not the visited target: the page is queued again and
  requested a second time under that key.
\<close>

theorem frontier_seed_unnormalized:
  "urlQueue (initial dir target targetUrl) = [targetUrl] \<and>
   visitedUrls (initial dir target targetUrl) = [] \<and>
   (isValidWebflowUrl P targetUrl
      \<longrightarrow> pageGets (start P dir True targetUrl) = [targetUrl] \<and>
           visitedUrls (start P dir True targetUrl) = [targetUrl] \<and>
           wave (start P dir True targetUrl) = [AwaitPage targetUrl]) \<and>
   (let seed = ''https://x.webflow.io/?ref=1'';
        s = run node [PageResponse 0 (Some selfLinkPage) True] (start node ''/tmp/w'' True seed)
    in map_option href (newURLbase node ''/?ref=1'' seed) = Some seed \<and>
       split0 (CHR ''?'') (split0 (CHR ''#'') seed) = ''https://x.webflow.io/'' \<and>
       split0 (CHR ''?'') (split0 (CHR ''#'') seed) \<noteq> seed \<and>
       visitedUrls s = [seed, ''https://x.webflow.io/''] \<and>
       pageGets s = [seed, ''https://x.webflow.io/''] \<and>
       wave s = [AwaitPage ''https://x.webflow.io/''])"
proof -
  have a: "urlQueue (initial dir target targetUrl) = [targetUrl] \<and>
      visitedUrls (initial dir target targetUrl) = []"
    by (simp add: initial_def blank_def)
  have b: "isValidWebflowUrl P targetUrl
      \<longrightarrow> pageGets (start P dir True targetUrl) = [targetUrl] \<and>
           visitedUrls (start P dir True targetUrl) = [targetUrl] \<and>
           wave (start P dir True targetUrl) = [AwaitPage targetUrl]"
    using start_accepted [of P targetUrl dir] by (auto simp: initial_def blank_def)
  have c: "let seed = ''https://x.webflow.io/?ref=1'';
        s = run node [PageResponse 0 (Some selfLinkPage) True] (start node ''/tmp/w'' True seed)
    in map_option href (newURLbase node ''/?ref=1'' seed) = Some seed \<and>
       split0 (CHR ''?'') (split0 (CHR ''#'') seed) = ''https://x.webflow.io/'' \<and>
       split0 (CHR ''?'') (split0 (CHR ''#'') seed) \<noteq> seed \<and>
       visitedUrls s = [seed, ''https://x.webflow.io/''] \<and>
       pageGets s = [seed, ''https://x.webflow.io/''] \<and>
       wave s = [AwaitPage ''https://x.webflow.io/'']"
    by code_simp
  show ?thesis
    by (intro conjI a [THEN conjunct1] a [THEN conjunct2] b c)
qed

theorem frontier_seed_unnormalized_witness:
  "isValidWebflowUrl node ''https://x.webflow.io/?ref=1'' \<and>
   pageGets (start node ''/tmp/w'' True ''https://x.webflow.io/?ref=1'')
     = [''https://x.webflow.io/?ref=1'']"
proof -
  have "isValidWebflowUrl node ''https://x.webflow.io/?ref=1''"
    by code_simp
  with frontier_seed_unnormalized [of "''/tmp/w''" "https ''x.webflow.io'' ''/'' ''?ref=1''"
      "''https://x.webflow.io/?ref=1''" node]
  show ?thesis
    by simp
qed

end
